theory Spec2Isabelle
  imports Complex_Main "HOL-Library.Signed_Division" "HOL-Library.Multiset"
begin

unbundle bit_operations_syntax

section \<open>The HashMap container of HashMap.hpp\<close>

text \<open>
  The class template \<^verbatim>\<open>HashMap<KeyT, ValueT>\<close> keeps an array of buckets (vectors of
  key/value pairs), the number of stored pairs and the number of buckets. The embedding
  below follows the member functions one by one.

  \<^item> The C++ \<^verbatim>\<open>int\<close> has 32 bits. An \<^verbatim>\<open>int\<close> result that can leave this range in
    a table the class itself builds is passed through \<open>wrap_int\<close>: the product
    \<^verbatim>\<open>capacity() * TABLE_SIZE_FACTOR\<close> of \<^verbatim>\<open>insert\<close> and the cast
    \<^verbatim>\<open>(int)keys.size()\<close> of the constructor from two vectors. The counter of stored
    pairs and the loop indices stay in range as long as a table holds at most
    \<open>INT_MAX\<close> pairs, and are plain integers.
  \<^item> \<^verbatim>\<open>std::hash<KeyT>\<close> is a parameter \<open>H\<close> of every operation that hashes; its
    \<^verbatim>\<open>size_t\<close> result is a natural number.
  \<^item> The load factor, a \<^verbatim>\<open>double\<close> in the source, is the exact quotient. For the sizes
    and positive capacities an \<^verbatim>\<open>int\<close> can hold, the rounded quotient compares with
    \<open>1/4\<close> and \<open>3/4\<close> as the exact one does. No operation below builds a table of
    capacity 0, where the source would divide by zero.
  \<^item> Exceptions are values of the type \<open>error\<close>, and every operation returns
    \<open>error + result\<close>. The source's undefined behaviour (an index outside the bucket
    array, dereferencing or incrementing the end iterator, a dangling pointer) is the
    outcome \<open>Undefined\<close>, so that no theorem can silently rely on it.
  \<^item> \<^verbatim>\<open>insert\<close> and \<^verbatim>\<open>_resizeTable\<close> call each other (a resize inserts
    into a fresh table, whose insert may resize again). The recursion is bounded by a
    depth parameter \<open>d\<close>; a call that would need a deeper nesting returns
    \<open>DepthExceeded\<close>. The theorems show that depth 2 is enough on every table the
    interface produces: every call returns.
\<close>

subsection \<open>Errors\<close>

datatype error =
    KeyNotFound      \<comment> \<open>\<^verbatim>\<open>std::out_of_range(KEY_NOT_FOUND_MSG)\<close>\<close>
  | LengthMismatch   \<comment> \<open>\<^verbatim>\<open>std::invalid_argument(MISMATCH_INPUT_LEN_MSG)\<close>\<close>
  | Terminated       \<comment> \<open>an exception leaving a \<^verbatim>\<open>noexcept\<close> function\<close>
  | Undefined        \<comment> \<open>undefined behaviour of the source\<close>
  | DepthExceeded    \<comment> \<open>the depth bound of the model was too small\<close>

subsection \<open>Constants\<close>

text \<open>
  \<open>wrap_int x\<close> is the \<^verbatim>\<open>int\<close> that holds the exact result \<open>x\<close>: \<open>x\<close> itself
  between \<open>-2^31\<close> and \<open>INT_MAX\<close>, and the two's complement value outside (what the
  usual compilers produce for a wrapped product and for a conversion from
  \<^verbatim>\<open>size_t\<close>).
\<close>

definition INT_MAX :: int where "INT_MAX = 2147483647"

definition wrap_int :: "int \<Rightarrow> int" where
  "wrap_int x = (x + 2147483648) mod 4294967296 - 2147483648"

definition LOWER_LOAD_FACTOR :: real where "LOWER_LOAD_FACTOR = 1 / 4"
definition UPPER_LOAD_FACTOR :: real where "UPPER_LOAD_FACTOR = 3 / 4"
definition MIN_CAPACITY :: int where "MIN_CAPACITY = 1"
definition TABLE_SIZE_FACTOR :: int where "TABLE_SIZE_FACTOR = 2"

subsection \<open>Data\<close>

type_synonym ('k, 'v) Bucket = "('k \<times> 'v) list"

text \<open>\<^verbatim>\<open>ElemMeta\<close>: a stored pair and its index inside its bucket.\<close>

record ('k, 'v) ElemMeta =
  elem :: "'k \<times> 'v"
  idxInBucket :: int

text \<open>
  The three members of the class. The type parameter \<open>'p\<close> is what \<^verbatim>\<open>_hashTable\<close>
  holds: the bucket array itself for a live table (\<open>HashMap\<close>), or an address that may
  be null for the object as it lies in memory (\<open>HashMap_obj\<close>, used for the move
  constructor and the destructor).
\<close>

record 'p HashMapRep =
  nElements :: int
  capacity :: int
  hashTable :: 'p

type_synonym ('k, 'v) HashMap = "('k, 'v) Bucket list HashMapRep"

type_synonym addr = nat
type_synonym HashMap_obj = "addr option HashMapRep"
type_synonym ('k, 'v) heap = "addr \<rightharpoonup> ('k, 'v) Bucket list"

subsection \<open>Queries\<close>

definition size_hm :: "'p HashMapRep \<Rightarrow> int" where
  "size_hm t = nElements t"

definition empty_hm :: "'p HashMapRep \<Rightarrow> bool" where
  "empty_hm t = (nElements t = 0)"

definition getLoadFactor :: "'p HashMapRep \<Rightarrow> real" where
  "getLoadFactor t = real_of_int (size_hm t) / real_of_int (capacity t)"

text \<open>\<^verbatim>\<open>_hash\<close>: \<^verbatim>\<open>std::hash<KeyT>()(key) & (capacity() - 1)\<close>.\<close>

definition hash :: "('k \<Rightarrow> nat) \<Rightarrow> 'p HashMapRep \<Rightarrow> 'k \<Rightarrow> int" where
  "hash H t key = int (H key) AND (capacity t - 1)"

text \<open>\<^verbatim>\<open>_hashTable[i]\<close>: outside the array the access is undefined.\<close>

definition bucketAt :: "('k, 'v) HashMap \<Rightarrow> int \<Rightarrow> error + ('k, 'v) Bucket" where
  "bucketAt t i =
     (if 0 \<le> i \<and> nat i < length (hashTable t) then Inr (hashTable t ! nat i)
      else Inl Undefined)"

subsection \<open>Construction\<close>

text \<open>The private constructor \<^verbatim>\<open>HashMap(const int capacity)\<close> and the default one.\<close>

definition HashMap_cap :: "int \<Rightarrow> ('k, 'v) HashMap" where
  "HashMap_cap c = \<lparr>nElements = 0, capacity = c, hashTable = replicate (nat c) []\<rparr>"


subsection \<open>Lookup\<close>

text \<open>The loop of \<^verbatim>\<open>_getPairByKey\<close> over the bucket, from index \<open>i\<close>.\<close>

function scanBucket :: "('k, 'v) Bucket \<Rightarrow> 'k \<Rightarrow> nat \<Rightarrow> error + ('k, 'v) ElemMeta" where
  "scanBucket b key i =
     (if i < length b
      then (if fst (b ! i) = key then Inr \<lparr>elem = b ! i, idxInBucket = int i\<rparr>
            else scanBucket b key (i + 1))
      else Inl KeyNotFound)"
  by pat_completeness auto
termination
  by (relation "measure (\<lambda>(b, key, i). length b - i)") auto

declare scanBucket.simps [simp del]

definition getPairByKey :: "('k \<Rightarrow> nat) \<Rightarrow> ('k, 'v) HashMap \<Rightarrow> 'k \<Rightarrow> error + ('k, 'v) ElemMeta" where
  "getPairByKey H t key =
     (case bucketAt t (hash H t key) of
        Inl e \<Rightarrow> Inl e
      | Inr b \<Rightarrow> scanBucket b key 0)"

definition containsKey :: "('k \<Rightarrow> nat) \<Rightarrow> ('k, 'v) HashMap \<Rightarrow> 'k \<Rightarrow> error + bool" where
  "containsKey H t key =
     (case getPairByKey H t key of
        Inr m \<Rightarrow> Inr True
      | Inl KeyNotFound \<Rightarrow> Inr False
      | Inl e \<Rightarrow> Inl e)"

definition at_hm :: "('k \<Rightarrow> nat) \<Rightarrow> ('k, 'v) HashMap \<Rightarrow> 'k \<Rightarrow> error + 'v" where
  "at_hm H t key =
     (case getPairByKey H t key of
        Inl e \<Rightarrow> Inl e
      | Inr m \<Rightarrow> Inr (snd (elem m)))"

definition bucketIndex :: "('k \<Rightarrow> nat) \<Rightarrow> ('k, 'v) HashMap \<Rightarrow> 'k \<Rightarrow> error + int" where
  "bucketIndex H t key =
     (case containsKey H t key of
        Inl e \<Rightarrow> Inl e
      | Inr False \<Rightarrow> Inl KeyNotFound
      | Inr True \<Rightarrow> Inr (hash H t key))"

definition bucketSize :: "('k \<Rightarrow> nat) \<Rightarrow> ('k, 'v) HashMap \<Rightarrow> 'k \<Rightarrow> error + int" where
  "bucketSize H t key =
     (case bucketIndex H t key of
        Inl e \<Rightarrow> Inl e
      | Inr i \<Rightarrow> (case bucketAt t i of Inl e \<Rightarrow> Inl e | Inr b \<Rightarrow> Inr (int (length b))))"

subsection \<open>The const forward iterator\<close>

text \<open>
  \<^verbatim>\<open>_bucketPtr\<close> is the index of the bucket pointed to (\<open>None\<close> is the null pointer of
  the member initialiser); \<^verbatim>\<open>_pairPtr\<close>, an iterator into a bucket, is the pair of the
  bucket's index and the position in it (\<open>None\<close> before its first assignment).
\<close>

record const_iterator =
  currBucket :: int
  bucketPtr :: "int option"
  pairPtr :: "(int \<times> nat) option"

definition setEnd :: "('k, 'v) HashMap \<Rightarrow> const_iterator \<Rightarrow> error + const_iterator" where
  "setEnd t it =
     (let c = capacity t - 1 in
      case bucketAt t c of
        Inl e \<Rightarrow> Inl e
      | Inr b \<Rightarrow> Inr (it\<lparr>currBucket := c, bucketPtr := Some c, pairPtr := Some (c, length b)\<rparr>))"

text \<open>The loop of \<^verbatim>\<open>_nextBucket\<close>, from bucket \<open>i\<close>.\<close>

function nextBucket_loop :: "('k, 'v) HashMap \<Rightarrow> const_iterator \<Rightarrow> int \<Rightarrow> error + const_iterator" where
  "nextBucket_loop t it i =
     (if i < capacity t
      then (case bucketAt t i of
              Inl e \<Rightarrow> Inl e
            | Inr b \<Rightarrow>
                if b \<noteq> []
                then Inr (it\<lparr>bucketPtr := Some i, pairPtr := Some (i, 0), currBucket := i\<rparr>)
                else nextBucket_loop t it (i + 1))
      else setEnd t it)"
  by pat_completeness auto
termination
  by (relation "measure (\<lambda>(t, it, i). nat (capacity t - i))") auto

declare nextBucket_loop.simps [simp del]

definition nextBucket :: "('k, 'v) HashMap \<Rightarrow> const_iterator \<Rightarrow> error + const_iterator" where
  "nextBucket t it =
     (let it1 = it\<lparr>currBucket := currBucket it + 1\<rparr>
      in nextBucket_loop t it1 (currBucket it1))"

text \<open>
  \<^verbatim>\<open>_nextPair\<close>: \<^verbatim>\<open>if (++_pairPtr == _bucketPtr->cend()) _nextBucket();\<close>.
  Incrementing an iterator that is not at an element is undefined.
\<close>

definition nextPair :: "('k, 'v) HashMap \<Rightarrow> const_iterator \<Rightarrow> error + const_iterator" where
  "nextPair t it =
     (case (pairPtr it, bucketPtr it) of
        (Some (b, pos), Some bp) \<Rightarrow>
          (case (bucketAt t b, bucketAt t bp) of
             (Inr bk, Inr bkp) \<Rightarrow>
               if pos < length bk
               then (let it1 = it\<lparr>pairPtr := Some (b, pos + 1)\<rparr>
                     in if pairPtr it1 = Some (bp, length bkp) then nextBucket t it1 else Inr it1)
               else Inl Undefined
           | _ \<Rightarrow> Inl Undefined)
      | _ \<Rightarrow> Inl Undefined)"

text \<open>The constructor \<^verbatim>\<open>const_iterator(const HashMap& map, int startFromBucket)\<close>.\<close>

definition new_const_iterator :: "('k, 'v) HashMap \<Rightarrow> int \<Rightarrow> error + const_iterator" where
  "new_const_iterator t startFromBucket =
     (let it = \<lparr>currBucket = startFromBucket - 1, bucketPtr = None, pairPtr = None\<rparr>
      in if \<not> empty_hm t then nextBucket t it else setEnd t it)"

text \<open>\<^verbatim>\<open>operator*\<close> and \<^verbatim>\<open>operator->\<close>.\<close>

definition deref :: "('k, 'v) HashMap \<Rightarrow> const_iterator \<Rightarrow> error + ('k \<times> 'v)" where
  "deref t it =
     (case pairPtr it of
        None \<Rightarrow> Inl Undefined
      | Some (b, pos) \<Rightarrow>
          (case bucketAt t b of
             Inl e \<Rightarrow> Inl e
           | Inr bk \<Rightarrow> if pos < length bk then Inr (bk ! pos) else Inl Undefined))"

definition iter_eq :: "const_iterator \<Rightarrow> const_iterator \<Rightarrow> bool" where
  "iter_eq a b = (pairPtr a = pairPtr b)"

definition begin_hm :: "('k, 'v) HashMap \<Rightarrow> error + const_iterator" where
  "begin_hm t = new_const_iterator t 0"

definition end_hm :: "('k, 'v) HashMap \<Rightarrow> error + const_iterator" where
  "end_hm t = new_const_iterator t (capacity t)"

definition cbegin :: "('k, 'v) HashMap \<Rightarrow> error + const_iterator" where
  "cbegin t = new_const_iterator t 0"

definition cend :: "('k, 'v) HashMap \<Rightarrow> error + const_iterator" where
  "cend t = new_const_iterator t (capacity t)"

subsection \<open>Traversal\<close>

text \<open>
  The loop \<^verbatim>\<open>for (auto it = cbegin(); it != cend(); ++it)\<close>, as the list of the pairs
  \<^verbatim>\<open>*it\<close> it visits. \<open>iterate_from\<close> is the loop from a given iterator; the three
  functions after it are the components of its termination measure.
\<close>

definition at_end :: "('k, 'v) HashMap \<Rightarrow> const_iterator \<Rightarrow> nat" where
  "at_end t it =
     (if pairPtr it = Some (capacity t - 1, length (hashTable t ! nat (capacity t - 1)))
      then 0 else 1)"

definition buckets_left :: "('k, 'v) HashMap \<Rightarrow> const_iterator \<Rightarrow> nat" where
  "buckets_left t it = nat (capacity t - currBucket it)"

definition pairs_left :: "('k, 'v) HashMap \<Rightarrow> const_iterator \<Rightarrow> nat" where
  "pairs_left t it =
     (case pairPtr it of None \<Rightarrow> 0 | Some (b, pos) \<Rightarrow> length (hashTable t ! nat b) - pos)"

function iterate_from :: "('k, 'v) HashMap \<Rightarrow> const_iterator \<Rightarrow> error + ('k \<times> 'v) list" where
  "iterate_from t it =
     (case cend t of
        Inl e \<Rightarrow> Inl e
      | Inr en \<Rightarrow>
          if iter_eq it en then Inr []
          else (case deref t it of
                  Inl e \<Rightarrow> Inl e
                | Inr p \<Rightarrow>
                    (case nextPair t it of
                       Inl e \<Rightarrow> Inl e
                     | Inr it1 \<Rightarrow>
                         (case iterate_from t it1 of
                            Inl e \<Rightarrow> Inl e
                          | Inr ps \<Rightarrow> Inr (p # ps)))))"
  by pat_completeness auto
termination
proof -
  let ?R = "measures [\<lambda>(t :: ('k, 'v) HashMap, it). at_end t it,
                      \<lambda>(t, it). buckets_left t it, \<lambda>(t, it). pairs_left t it]"
  have setEnd_at: "pairPtr r = Some (capacity t - 1, length (hashTable t ! nat (capacity t - 1)))"
    if "setEnd t it = Inr r" for t :: "('k, 'v) HashMap" and it r
    using that by (auto simp: setEnd_def Let_def bucketAt_def split: sum.splits if_splits)
  have loop_result:
    "pairPtr r = Some (capacity t - 1, length (hashTable t ! nat (capacity t - 1)))
       \<or> (i \<le> currBucket r \<and> currBucket r < capacity t)"
    if "nextBucket_loop t it i = Inr r" for t :: "('k, 'v) HashMap" and it i r
    using that
  proof (induction t it i rule: nextBucket_loop.induct)
    case (1 t it i)
    show ?case
    proof (cases "i < capacity t")
      case False
      with "1.prems" have "setEnd t it = Inr r"
        by (simp add: nextBucket_loop.simps [of t it i])
      then show ?thesis by (simp add: setEnd_at)
    next
      case True
      then obtain b where b: "bucketAt t i = Inr b"
        using "1.prems" by (cases "bucketAt t i") (auto simp: nextBucket_loop.simps [of t it i])
      show ?thesis
      proof (cases "b = []")
        case empty: True
        with True b "1.prems" have "nextBucket_loop t it (i + 1) = Inr r"
          by (simp add: nextBucket_loop.simps [of t it i])
        moreover have "\<not> b \<noteq> []" using empty by simp
        ultimately show ?thesis
          using "1.IH" [OF True b] by fastforce
      next
        case False
        with True b "1.prems" show ?thesis
          by (auto simp: nextBucket_loop.simps [of t it i])
      qed
    qed
  qed
  have cend_at: "pairPtr en = Some (capacity t - 1, length (hashTable t ! nat (capacity t - 1)))"
    if "cend t = Inr en" for t :: "('k, 'v) HashMap" and en
    using that
    by (auto simp: cend_def new_const_iterator_def nextBucket_def Let_def
          nextBucket_loop.simps [of t _ "capacity t"] setEnd_at split: if_splits)
  have step: "((t, it1), (t, it)) \<in> ?R"
    if "cend t = Inr en" "\<not> iter_eq it en" "nextPair t it = Inr it1"
    for t :: "('k, 'v) HashMap" and it en it1
  proof -
    let ?e = "Some (capacity t - 1, length (hashTable t ! nat (capacity t - 1)))"
    from that(1,2) have ne: "pairPtr it \<noteq> ?e"
      by (auto simp: iter_eq_def dest: cend_at)
    from that(3) obtain b pos bp bk bkp where
      pp: "pairPtr it = Some (b, pos)" and bp: "bucketPtr it = Some bp"
      and bk: "bucketAt t b = Inr bk" and bkp: "bucketAt t bp = Inr bkp" and pos: "pos < length bk"
      by (auto simp: nextPair_def split: option.splits sum.splits if_splits prod.splits)
    from bk have bk_eq: "bk = hashTable t ! nat b"
      by (auto simp: bucketAt_def split: if_splits)
    let ?it1 = "it\<lparr>pairPtr := Some (b, pos + 1)\<rparr>"
    show ?thesis
    proof (cases "(b, pos + 1) = (bp, length bkp)")
      case False
      with that(3) pp bp bk bkp pos have "it1 = ?it1"
        by (auto simp: nextPair_def Let_def)
      with pp pos bk_eq ne show ?thesis
        by (auto simp: at_end_def buckets_left_def pairs_left_def)
    next
      case True
      with that(3) pp bp bk bkp pos have "nextBucket t ?it1 = Inr it1"
        by (auto simp: nextPair_def Let_def)
      then have "nextBucket_loop t (?it1\<lparr>currBucket := currBucket it + 1\<rparr>) (currBucket it + 1) = Inr it1"
        by (simp add: nextBucket_def Let_def)
      from loop_result [OF this] ne show ?thesis
        by (auto simp: at_end_def buckets_left_def pairs_left_def)
    qed
  qed
  show ?thesis
    by (relation ?R) (simp, rule step)
qed

declare iterate_from.simps [simp del]

definition iterate :: "('k, 'v) HashMap \<Rightarrow> error + ('k \<times> 'v) list" where
  "iterate t = (case cbegin t of Inl e \<Rightarrow> Inl e | Inr it \<Rightarrow> iterate_from t it)"

subsection \<open>Insertion and resizing\<close>

text \<open>
  The loop body of \<^verbatim>\<open>_resizeTable\<close>, \<^verbatim>\<open>resized.insert(it->first, it->second)\<close>, over
  the pairs the traversal visits. The insert function is a parameter: it is the insert
  of one nesting level deeper.
\<close>

fun rehash ::
  "(('k, 'v) HashMap \<Rightarrow> 'k \<Rightarrow> 'v \<Rightarrow> error + (('k, 'v) HashMap \<times> bool)) \<Rightarrow>
     ('k, 'v) HashMap \<Rightarrow> ('k \<times> 'v) list \<Rightarrow> error + ('k, 'v) HashMap" where
  "rehash ins resized [] = Inr resized"
| "rehash ins resized (p # ps) =
     (case ins resized (fst p) (snd p) of
        Inl e \<Rightarrow> Inl e
      | Inr (resized1, inserted) \<Rightarrow> rehash ins resized1 ps)"

text \<open>
  \<^verbatim>\<open>_resizeTable\<close>. The traversed table is not changed by the loop, so the pairs are
  collected first; \<^verbatim>\<open>*this = std::move(resized)\<close> makes the rebuilt table the result.
\<close>

definition resizeTable_with ::
  "(('k, 'v) HashMap \<Rightarrow> 'k \<Rightarrow> 'v \<Rightarrow> error + (('k, 'v) HashMap \<times> bool)) \<Rightarrow>
     ('k, 'v) HashMap \<Rightarrow> int \<Rightarrow> error + ('k, 'v) HashMap" where
  "resizeTable_with ins t newSize =
     (if size_hm t \<le> newSize \<and> newSize \<ge> MIN_CAPACITY
      then (let resized = HashMap_cap newSize
            in case iterate t of
                 Inl e \<Rightarrow> Inl e
               | Inr ps \<Rightarrow> rehash ins resized ps)
      else Inr t)"

text \<open>\<^verbatim>\<open>_hashTable[i].push_back(p)\<close>.\<close>

definition push_back :: "('k, 'v) HashMap \<Rightarrow> int \<Rightarrow> 'k \<times> 'v \<Rightarrow> error + ('k, 'v) HashMap" where
  "push_back t i p =
     (case bucketAt t i of
        Inl e \<Rightarrow> Inl e
      | Inr b \<Rightarrow> Inr (t\<lparr>hashTable := (hashTable t)[nat i := b @ [p]]\<rparr>))"

text \<open>\<^verbatim>\<open>insert\<close>, with the table after the call and the returned flag.\<close>

primrec insert_hm ::
  "nat \<Rightarrow> ('k \<Rightarrow> nat) \<Rightarrow> ('k, 'v) HashMap \<Rightarrow> 'k \<Rightarrow> 'v \<Rightarrow> error + (('k, 'v) HashMap \<times> bool)" where
  "insert_hm 0 H t key val = Inl DepthExceeded"
| "insert_hm (Suc d) H t key val =
     (case containsKey H t key of
        Inl e \<Rightarrow> Inl e
      | Inr True \<Rightarrow> Inr (t, False)
      | Inr False \<Rightarrow>
          (let t1 = t\<lparr>nElements := nElements t + 1\<rparr>
           in case push_back t1 (hash H t1 key) (key, val) of
                Inl e \<Rightarrow> Inl e
              | Inr t2 \<Rightarrow>
                  if getLoadFactor t2 > UPPER_LOAD_FACTOR
                  then (case resizeTable_with (insert_hm d H) t2
                               (wrap_int (capacity t2 * TABLE_SIZE_FACTOR)) of
                          Inl e \<Rightarrow> Inl e
                        | Inr t3 \<Rightarrow> Inr (t3, True))
                  else Inr (t2, True)))"

declare insert_hm.simps [simp del]

definition resizeTable ::
  "nat \<Rightarrow> ('k \<Rightarrow> nat) \<Rightarrow> ('k, 'v) HashMap \<Rightarrow> int \<Rightarrow> error + ('k, 'v) HashMap" where
  "resizeTable d H t newSize = resizeTable_with (insert_hm d H) t newSize"

subsection \<open>Removal\<close>

text \<open>\<^verbatim>\<open>_hashTable[i].erase(begin + idx)\<close>.\<close>

definition erase_at :: "('k, 'v) HashMap \<Rightarrow> int \<Rightarrow> int \<Rightarrow> error + ('k, 'v) HashMap" where
  "erase_at t i idx =
     (case bucketAt t i of
        Inl e \<Rightarrow> Inl e
      | Inr b \<Rightarrow>
          if 0 \<le> idx \<and> nat idx < length b
          then Inr (t\<lparr>hashTable := (hashTable t)[nat i := take (nat idx) b @ drop (nat idx + 1) b]\<rparr>)
          else Inl Undefined)"

text \<open>
  \<^verbatim>\<open>erase\<close>. The division \<^verbatim>\<open>capacity() / TABLE_SIZE_FACTOR\<close> of C++ truncates
  towards zero (\<open>sdiv\<close>).
\<close>

definition erase ::
  "nat \<Rightarrow> ('k \<Rightarrow> nat) \<Rightarrow> ('k, 'v) HashMap \<Rightarrow> 'k \<Rightarrow> error + (('k, 'v) HashMap \<times> bool)" where
  "erase d H t key =
     (let bucketIdx = hash H t key
      in case bucketAt t bucketIdx of
           Inl e \<Rightarrow> Inl e
         | Inr b \<Rightarrow>
             (case getPairByKey H t key of
                Inl KeyNotFound \<Rightarrow> Inr (t, False)
              | Inl e \<Rightarrow> Inl e
              | Inr m \<Rightarrow>
                  (case erase_at t bucketIdx (idxInBucket m) of
                     Inl e \<Rightarrow> Inl e
                   | Inr t1 \<Rightarrow>
                       (let t2 = t1\<lparr>nElements := nElements t1 - 1\<rparr>
                        in if getLoadFactor t2 < LOWER_LOAD_FACTOR
                           then (case resizeTable d H t2 (capacity t2 sdiv TABLE_SIZE_FACTOR) of
                                   Inl e \<Rightarrow> Inl e
                                 | Inr t3 \<Rightarrow> Inr (t3, True))
                           else Inr (t2, True)))))"

text \<open>\<^verbatim>\<open>clear\<close>: the loop over the buckets from \<open>i\<close>, then the reset of the counter.\<close>

function clear_loop :: "('k, 'v) HashMap \<Rightarrow> int \<Rightarrow> error + ('k, 'v) HashMap" where
  "clear_loop t i =
     (if i < capacity t
      then (case bucketAt t i of
              Inl e \<Rightarrow> Inl e
            | Inr b \<Rightarrow> clear_loop (t\<lparr>hashTable := (hashTable t)[nat i := []]\<rparr>) (i + 1))
      else Inr t)"
  by pat_completeness auto
termination
  by (relation "measure (\<lambda>(t, i). nat (capacity t - i))") auto

declare clear_loop.simps [simp del]

definition clear :: "('k, 'v) HashMap \<Rightarrow> error + ('k, 'v) HashMap" where
  "clear t =
     (case clear_loop t 0 of
        Inl e \<Rightarrow> Inl e
      | Inr t1 \<Rightarrow> Inr (t1\<lparr>nElements := 0\<rparr>))"

subsection \<open>Indexed access\<close>



text \<open>The const \<^verbatim>\<open>operator[]\<close>.\<close>

definition index_const :: "('k \<Rightarrow> nat) \<Rightarrow> ('k, 'v) HashMap \<Rightarrow> 'k \<Rightarrow> error + 'v" where
  "index_const H t key =
     (case getPairByKey H t key of
        Inr m \<Rightarrow> Inr (snd (elem m))
      | Inl KeyNotFound \<Rightarrow>
          (case cbegin t of
             Inl e \<Rightarrow> Inl e
           | Inr it \<Rightarrow> (case deref t it of Inl e \<Rightarrow> Inl e | Inr p \<Rightarrow> Inr (snd p)))
      | Inl e \<Rightarrow> Inl e)"

subsection \<open>The constructor from two vectors\<close>




subsection \<open>Move construction and destruction\<close>

text \<open>
  Here the object is taken as it lies in memory: \<^verbatim>\<open>_hashTable\<close> is an address or null,
  and the heap maps the addresses of the live bucket arrays to their contents.
  \<open>HashMap_move other\<close> is the pair of the constructed object and \<open>other\<close> after the call.
\<close>

definition HashMap_move :: "HashMap_obj \<Rightarrow> HashMap_obj \<times> HashMap_obj" where
  "HashMap_move other =
     (let tbl = hashTable other;
          other1 = other\<lparr>hashTable := None\<rparr>;
          n = size_hm other1;
          c = capacity other1
      in (\<lparr>nElements = n, capacity = c, hashTable = tbl\<rparr>, other1))"

text \<open>\<^verbatim>\<open>~HashMap\<close>: \<^verbatim>\<open>delete[] _hashTable\<close>; deleting the null pointer does nothing.\<close>

definition destroy :: "('k, 'v) heap \<Rightarrow> HashMap_obj \<Rightarrow> error + ('k, 'v) heap" where
  "destroy h x =
     (case hashTable x of
        None \<Rightarrow> Inr h
      | Some a \<Rightarrow> if a \<in> dom h then Inr (h(a := None)) else Inl Undefined)"

text \<open>The live table an object stands for: its bucket pointer followed into the heap.\<close>

definition table_of :: "('k, 'v) heap \<Rightarrow> HashMap_obj \<Rightarrow> error + ('k, 'v) HashMap" where
  "table_of h x =
     (case hashTable x of
        None \<Rightarrow> Inl Undefined
      | Some a \<Rightarrow>
          (case h a of
             None \<Rightarrow> Inl Undefined
           | Some bs \<Rightarrow> Inr \<lparr>nElements = nElements x, capacity = capacity x, hashTable = bs\<rparr>))"

section \<open>Well-formed tables\<close>

text \<open>The stored pairs, in bucket order, and the stored keys.\<close>

definition entries :: "('k, 'v) HashMap \<Rightarrow> ('k \<times> 'v) list" where
  "entries t = concat (hashTable t)"

definition keys_of :: "('k, 'v) HashMap \<Rightarrow> 'k set" where
  "keys_of t = fst ` set (entries t)"

definition is_pow2 :: "int \<Rightarrow> bool" where
  "is_pow2 c = (\<exists>j \<in> {..<nat c}. c = 2 ^ j)"

text \<open>Every pair lies in the bucket its key hashes to.\<close>

definition buckets_ok :: "('k \<Rightarrow> nat) \<Rightarrow> ('k, 'v) HashMap \<Rightarrow> bool" where
  "buckets_ok H t =
     (\<forall>i \<in> {..<length (hashTable t)}. \<forall>p \<in> set (hashTable t ! i). hash H t (fst p) = int i)"

text \<open>
  The structure every member function relies on: \<open>capacity\<close> buckets, at least one;
  the counter equal to the number of stored pairs; no key stored twice; every pair in
  its bucket.
\<close>

definition wf :: "('k \<Rightarrow> nat) \<Rightarrow> ('k, 'v) HashMap \<Rightarrow> bool" where
  "wf H t =
     (1 \<le> capacity t \<and> length (hashTable t) = nat (capacity t)
      \<and> nElements t = int (length (entries t))
      \<and> distinct (map fst (entries t))
      \<and> buckets_ok H t)"

text \<open>
  The invariant of the tables the public interface produces: well-formed, the capacity
  a power of two, and the load factor at most \<open>3/4\<close>. The constructors establish it
  and \<^verbatim>\<open>insert\<close>, \<^verbatim>\<open>erase\<close>, \<^verbatim>\<open>clear\<close> and the indexed access keep it as long
  as the table holds fewer than \<open>2^29\<close> pairs (\<open>invar_HashMap_default\<close>,
  \<open>HashMap_vectors_invar\<close>, \<open>apply_call_invar\<close>);
  "a table" in the statements about the operations is a table with this invariant.
\<close>

definition invar :: "('k \<Rightarrow> nat) \<Rightarrow> ('k, 'v) HashMap \<Rightarrow> bool" where
  "invar H t = (wf H t \<and> is_pow2 (capacity t) \<and> 4 * nElements t \<le> 3 * capacity t)"

text \<open>
  Once the capacity is \<open>2^30\<close> the product \<^verbatim>\<open>capacity() * TABLE_SIZE_FACTOR\<close> no longer
  fits, \<^verbatim>\<open>_resizeTable\<close> refuses the wrapped size and the table stops growing: it stays
  well-formed while its load factor passes \<open>3/4\<close>. \<open>invar_grown\<close> admits these
  tables too.
\<close>

definition invar_grown :: "('k \<Rightarrow> nat) \<Rightarrow> ('k, 'v) HashMap \<Rightarrow> bool" where
  "invar_grown H t =
     (wf H t \<and> is_pow2 (capacity t)
      \<and> (4 * nElements t \<le> 3 * capacity t \<or> INT_MAX < capacity t * 2))"

text \<open>
  The table after the two updates of \<^verbatim>\<open>insert\<close> (counter, then \<^verbatim>\<open>push_back\<close>), and
  after the two updates of \<^verbatim>\<open>erase\<close> (removal at index \<open>j\<close> of the key's bucket, then
  counter), before any resize. Both are used to state what the operations compute.
\<close>

definition put :: "('k \<Rightarrow> nat) \<Rightarrow> ('k, 'v) HashMap \<Rightarrow> 'k \<Rightarrow> 'v \<Rightarrow> ('k, 'v) HashMap" where
  "put H t key val =
     t\<lparr>nElements := nElements t + 1,
       hashTable := (hashTable t)[nat (hash H t key) :=
                      hashTable t ! nat (hash H t key) @ [(key, val)]]\<rparr>"

definition del :: "('k \<Rightarrow> nat) \<Rightarrow> ('k, 'v) HashMap \<Rightarrow> 'k \<Rightarrow> nat \<Rightarrow> ('k, 'v) HashMap" where
  "del H t key j =
     t\<lparr>hashTable := (hashTable t)[nat (hash H t key) :=
                      take j (hashTable t ! nat (hash H t key))
                      @ drop (j + 1) (hashTable t ! nat (hash H t key))],
       nElements := nElements t - 1\<rparr>"

text \<open>
  The end position \<^verbatim>\<open>_setEnd\<close> moves an iterator to, and an iterator standing at
  position \<open>pos\<close> of bucket \<open>b\<close>.
\<close>

definition end_iter :: "('k, 'v) HashMap \<Rightarrow> const_iterator \<Rightarrow> const_iterator" where
  "end_iter t it =
     it\<lparr>currBucket := capacity t - 1, bucketPtr := Some (capacity t - 1),
        pairPtr := Some (capacity t - 1, length (hashTable t ! nat (capacity t - 1)))\<rparr>"

definition iter_at :: "const_iterator \<Rightarrow> nat \<Rightarrow> nat \<Rightarrow> bool" where
  "iter_at it b pos =
     (currBucket it = int b \<and> bucketPtr it = Some (int b) \<and> pairPtr it = Some (int b, pos))"

text \<open>The table after an assignment through a reference to the pair at \<open>j\<close> of the key's bucket.\<close>

definition set_val :: "('k \<Rightarrow> nat) \<Rightarrow> ('k, 'v) HashMap \<Rightarrow> 'k \<Rightarrow> nat \<Rightarrow> 'v \<Rightarrow> ('k, 'v) HashMap" where
  "set_val H t key j val =
     t\<lparr>hashTable := (hashTable t)[nat (hash H t key) :=
                      (hashTable t ! nat (hash H t key))[j := (key, val)]]\<rparr>"

section \<open>Sequences of mutating calls\<close>

datatype ('k, 'v) operation = Insert 'k 'v | Erase 'k | Clear

fun apply_op ::
  "nat \<Rightarrow> ('k \<Rightarrow> nat) \<Rightarrow> ('k, 'v) HashMap \<Rightarrow> ('k, 'v) operation \<Rightarrow> error + ('k, 'v) HashMap" where
  "apply_op d H t (Insert key val) =
     (case insert_hm d H t key val of Inl e \<Rightarrow> Inl e | Inr (t1, inserted) \<Rightarrow> Inr t1)"
| "apply_op d H t (Erase key) =
     (case erase d H t key of Inl e \<Rightarrow> Inl e | Inr (t1, erased) \<Rightarrow> Inr t1)"
| "apply_op d H t Clear = clear t"

fun run_ops ::
  "nat \<Rightarrow> ('k \<Rightarrow> nat) \<Rightarrow> ('k, 'v) HashMap \<Rightarrow> ('k, 'v) operation list \<Rightarrow> error + ('k, 'v) HashMap" where
  "run_ops d H t [] = Inr t"
| "run_ops d H t (op # ops) =
     (case apply_op d H t op of Inl e \<Rightarrow> Inl e | Inr t1 \<Rightarrow> run_ops d H t1 ops)"







section \<open>Example tables\<close>

text \<open>
  Keys are natural numbers hashed to themselves, values are integers. \<open>ex_one\<close> is the
  default table after \<^verbatim>\<open>insert(5, 7)\<close>; \<open>ex_shrunk\<close> is that table after
  \<^verbatim>\<open>erase(5)\<close>; \<open>ex_twelve\<close> is the default table after the twelve calls
  \<^verbatim>\<open>insert(k, 0)\<close> for \<open>k = 0, \<dots>, 11\<close>.
\<close>

definition ex_hash :: "nat \<Rightarrow> nat" where
  "ex_hash k = k"

definition ex_one :: "(nat, int) HashMap" where
  "ex_one = \<lparr>nElements = 1, capacity = 16,
             hashTable = [ [], [], [], [], [], [(5, 7)], [], [], [], [], [], [], [], [], [], []]\<rparr>"


definition ex_twelve :: "(nat, int) HashMap" where
  "ex_twelve = \<lparr>nElements = 12, capacity = 16,
                hashTable = [ [(0, 0)], [(1, 0)], [(2, 0)], [(3, 0)], [(4, 0)], [(5, 0)], [(6, 0)],
                             [(7, 0)], [(8, 0)], [(9, 0)], [(10, 0)], [(11, 0)], [], [], [], []]\<rparr>"

section \<open>Properties of the operations on well-formed tables\<close>

subsection \<open>Hashing\<close>

lemma hash_range: "1 \<le> capacity t \<Longrightarrow> 0 \<le> hash H t k \<and> hash H t k < capacity t"
proof -
  assume c: "1 \<le> capacity t"
  then have "int (H k) AND (capacity t - 1) \<le> capacity t - 1"
    by (intro AND_upper2) simp
  moreover have "0 \<le> int (H k) AND (capacity t - 1)"
    by (intro AND_lower) simp
  ultimately show ?thesis by (simp add: hash_def)
qed

lemma hash_nElements [simp]: "hash H (t\<lparr>nElements := n\<rparr>) k = hash H t k"
  by (simp add: hash_def)

lemma hash_hashTable [simp]: "hash H (t\<lparr>hashTable := bs\<rparr>) k = hash H t k"
  by (simp add: hash_def)

lemma wf_slot: "wf H t \<Longrightarrow> nat (hash H t k) < length (hashTable t)"
  using hash_range [of t H k] by (simp add: wf_def)

lemma wf_bucketAt: "wf H t \<Longrightarrow> bucketAt t (hash H t k) = Inr (hashTable t ! nat (hash H t k))"
  using hash_range [of t H k] by (simp add: wf_def bucketAt_def)

subsection \<open>Buckets and the list of stored pairs\<close>

lemma mset_concat_update:
  "i < length bs \<Longrightarrow> mset (concat (bs[i := x])) + mset (bs ! i) = mset (concat bs) + mset x"
proof -
  assume i: "i < length bs"
  have "concat bs = concat (take i bs) @ bs ! i @ concat (drop (Suc i) bs)"
    using id_take_nth_drop [OF i] by (metis concat.simps(2) concat_append)
  moreover have "concat (bs[i := x]) = concat (take i bs) @ x @ concat (drop (Suc i) bs)"
    by (simp add: upd_conv_take_nth_drop [OF i])
  ultimately show ?thesis by simp
qed

lemma nth_subset_concat: "i < length bs \<Longrightarrow> set (bs ! i) \<subseteq> set (concat bs)"
  by (metis UN_upper nth_mem set_concat)

lemma in_concat_nth: "p \<in> set (concat bs) \<Longrightarrow> \<exists>i < length bs. p \<in> set (bs ! i)"
  by (metis in_set_conv_nth UN_E set_concat)

lemma wf_entry_bucket:
  assumes "wf H t" "p \<in> set (entries t)"
  shows "p \<in> set (hashTable t ! nat (hash H t (fst p)))"
proof -
  from assms(2) obtain i where i: "i < length (hashTable t)" "p \<in> set (hashTable t ! i)"
    unfolding entries_def by (blast dest: in_concat_nth)
  with assms(1) have "hash H t (fst p) = int i"
    by (auto simp: wf_def buckets_ok_def)
  with i show ?thesis by simp
qed

lemma wf_bucket_entries:
  "wf H t \<Longrightarrow> set (hashTable t ! nat (hash H t k)) \<subseteq> set (entries t)"
  unfolding entries_def by (intro nth_subset_concat wf_slot)

lemma distinct_fst_nth:
  "i < length bs \<Longrightarrow> distinct (map fst (concat bs)) \<Longrightarrow> distinct (map fst (bs ! i))"
proof -
  assume i: "i < length bs" and d: "distinct (map fst (concat bs))"
  have "concat bs = concat (take i bs) @ bs ! i @ concat (drop (Suc i) bs)"
    using id_take_nth_drop [OF i] by (metis concat.simps(2) concat_append)
  with d show ?thesis by (metis distinct_append map_append)
qed

lemma wf_bucket_distinct: "wf H t \<Longrightarrow> distinct (map fst (hashTable t ! nat (hash H t k)))"
  by (metis distinct_fst_nth entries_def wf_def wf_slot)

subsection \<open>Lookup\<close>

lemma scanBucket_absent:
  "key \<notin> fst ` set (drop i b) \<Longrightarrow> scanBucket b key i = Inl KeyNotFound"
proof (induction b key i rule: scanBucket.induct)
  case (1 b key i)
  show ?case
  proof (cases "i < length b")
    case False
    then show ?thesis by (simp add: scanBucket.simps [of b key i])
  next
    case True
    then have d: "drop i b = b ! i # drop (Suc i) b"
      by (simp add: Cons_nth_drop_Suc)
    with "1.prems" have ne: "fst (b ! i) \<noteq> key" and rest: "key \<notin> fst ` set (drop (i + 1) b)"
      by auto
    from "1.IH" [OF True ne rest] True ne show ?thesis
      by (simp add: scanBucket.simps [of b key i])
  qed
qed

lemma scanBucket_present:
  "key \<in> fst ` set (drop i b) \<Longrightarrow>
     \<exists>j. i \<le> j \<and> j < length b \<and> fst (b ! j) = key
         \<and> scanBucket b key i = Inr \<lparr>elem = b ! j, idxInBucket = int j\<rparr>"
proof (induction b key i rule: scanBucket.induct)
  case (1 b key i)
  from "1.prems" have True: "i < length b" by (cases "i < length b") auto
  then have d: "drop i b = b ! i # drop (Suc i) b"
    by (simp add: Cons_nth_drop_Suc)
  show ?case
  proof (cases "fst (b ! i) = key")
    case True
    with \<open>i < length b\<close> show ?thesis
      by (auto simp: scanBucket.simps [of b key i])
  next
    case False
    with "1.prems" d have "key \<in> fst ` set (drop (i + 1) b)" by auto
    from "1.IH" [OF True False this] obtain j where
      "i + 1 \<le> j" "j < length b" "fst (b ! j) = key"
      "scanBucket b key (i + 1) = Inr \<lparr>elem = b ! j, idxInBucket = int j\<rparr>" by blast
    with True False show ?thesis
      by (auto simp: scanBucket.simps [of b key i] intro!: exI [of _ j])
  qed
qed

lemma getPairByKey_absent:
  assumes "wf H t" "key \<notin> keys_of t"
  shows "getPairByKey H t key = Inl KeyNotFound"
proof -
  from assms have "key \<notin> fst ` set (hashTable t ! nat (hash H t key))"
    using wf_bucket_entries [OF assms(1), of key] by (auto simp: keys_of_def)
  then show ?thesis
    by (simp add: getPairByKey_def wf_bucketAt [OF assms(1)] scanBucket_absent)
qed

lemma getPairByKey_present:
  assumes "wf H t" "(key, v) \<in> set (entries t)"
  shows "\<exists>j. j < length (hashTable t ! nat (hash H t key))
            \<and> hashTable t ! nat (hash H t key) ! j = (key, v)
            \<and> getPairByKey H t key = Inr \<lparr>elem = (key, v), idxInBucket = int j\<rparr>"
proof -
  let ?b = "hashTable t ! nat (hash H t key)"
  from wf_entry_bucket [OF assms] have mem: "(key, v) \<in> set ?b" by simp
  then have "key \<in> fst ` set (drop 0 ?b)" by force
  from scanBucket_present [OF this] obtain j where
    j: "j < length ?b" "fst (?b ! j) = key"
       "scanBucket ?b key 0 = Inr \<lparr>elem = ?b ! j, idxInBucket = int j\<rparr>" by blast
  have "?b ! j = (key, v)"
  proof -
    have "?b ! j \<in> set ?b" using j(1) by simp
    with mem j(2) wf_bucket_distinct [OF assms(1), of key] show ?thesis
      by (metis eq_key_imp_eq_value prod.collapse)
  qed
  with j show ?thesis
    by (auto simp: getPairByKey_def wf_bucketAt [OF assms(1)])
qed

lemma keys_of_cases: "key \<in> keys_of t \<Longrightarrow> \<exists>v. (key, v) \<in> set (entries t)"
  by (auto simp: keys_of_def)

lemma containsKey_wf: "wf H t \<Longrightarrow> containsKey H t key = Inr (key \<in> keys_of t)"
proof (cases "key \<in> keys_of t")
  case False
  assume "wf H t"
  with False show ?thesis by (simp add: containsKey_def getPairByKey_absent)
next
  case True
  assume w: "wf H t"
  from keys_of_cases [OF True] obtain v where "(key, v) \<in> set (entries t)" ..
  from getPairByKey_present [OF w this] True show ?thesis
    by (auto simp: containsKey_def)
qed

lemma at_hm_present: "wf H t \<Longrightarrow> (key, v) \<in> set (entries t) \<Longrightarrow> at_hm H t key = Inr v"
  by (auto simp: at_hm_def dest!: getPairByKey_present)

lemma at_hm_absent: "wf H t \<Longrightarrow> key \<notin> keys_of t \<Longrightarrow> at_hm H t key = Inl KeyNotFound"
  by (simp add: at_hm_def getPairByKey_absent)

lemma at_hm_iff: "wf H t \<Longrightarrow> at_hm H t key = Inr v \<longleftrightarrow> (key, v) \<in> set (entries t)"
proof
  assume w: "wf H t" and a: "at_hm H t key = Inr v"
  show "(key, v) \<in> set (entries t)"
  proof (cases "key \<in> keys_of t")
    case False
    with w a show ?thesis by (simp add: at_hm_absent)
  next
    case True
    then obtain v' where v': "(key, v') \<in> set (entries t)" by (blast dest: keys_of_cases)
    with w a show ?thesis by (simp add: at_hm_present)
  qed
qed (simp add: at_hm_present)

subsection \<open>The load factor\<close>

lemma load_above:
  "0 < capacity t \<Longrightarrow> (getLoadFactor t > UPPER_LOAD_FACTOR) = (3 * capacity t < 4 * nElements t)"
proof -
  assume c: "0 < capacity t"
  have "(3 / 4 < real_of_int (nElements t) / real_of_int (capacity t))
          = (3 * real_of_int (capacity t) < 4 * real_of_int (nElements t))"
    using c by (simp add: field_simps)
  also have "\<dots> = (real_of_int (3 * capacity t) < real_of_int (4 * nElements t))" by simp
  also have "\<dots> = (3 * capacity t < 4 * nElements t)" by (rule of_int_less_iff)
  finally show ?thesis by (simp add: getLoadFactor_def UPPER_LOAD_FACTOR_def size_hm_def)
qed

lemma load_below:
  "0 < capacity t \<Longrightarrow> (getLoadFactor t < LOWER_LOAD_FACTOR) = (4 * nElements t < capacity t)"
proof -
  assume c: "0 < capacity t"
  have "(real_of_int (nElements t) / real_of_int (capacity t) < 1 / 4)
          = (4 * real_of_int (nElements t) < real_of_int (capacity t))"
    using c by (simp add: field_simps)
  also have "\<dots> = (real_of_int (4 * nElements t) < real_of_int (capacity t))" by simp
  also have "\<dots> = (4 * nElements t < capacity t)" by (rule of_int_less_iff)
  finally show ?thesis by (simp add: getLoadFactor_def LOWER_LOAD_FACTOR_def size_hm_def)
qed

subsection \<open>Adding a pair to its bucket\<close>

lemma put_fields [simp]:
  "capacity (put H t key val) = capacity t"
  "nElements (put H t key val) = nElements t + 1"
  "length (hashTable (put H t key val)) = length (hashTable t)"
  by (simp_all add: put_def)

lemma mset_entries_put:
  assumes "wf H t"
  shows "mset (entries (put H t key val)) = add_mset (key, val) (mset (entries t))"
proof -
  let ?s = "nat (hash H t key)"
  from mset_concat_update [OF wf_slot [OF assms], of key "hashTable t ! ?s @ [(key, val)]"]
  show ?thesis by (simp add: put_def entries_def)
qed

lemma wf_bucket_hash:
  "wf H t \<Longrightarrow> i < length (hashTable t) \<Longrightarrow> p \<in> set (hashTable t ! i) \<Longrightarrow> hash H t (fst p) = int i"
  by (simp add: wf_def buckets_ok_def)

lemma buckets_ok_put:
  assumes "wf H t"
  shows "buckets_ok H (put H t key val)"
proof -
  let ?s = "nat (hash H t key)"
  have s: "int ?s = hash H t key" using hash_range [of t H key] assms by (simp add: wf_def)
  have hc: "hash H (put H t key val) k = hash H t k" for k by (simp add: hash_def)
  show ?thesis
    unfolding buckets_ok_def
  proof (intro ballI)
    fix i p
    assume i: "i \<in> {..<length (hashTable (put H t key val))}"
      and p: "p \<in> set (hashTable (put H t key val) ! i)"
    from i have il: "i < length (hashTable t)" by simp
    show "hash H (put H t key val) (fst p) = int i"
    proof (cases "i = ?s")
      case True
      with p il have "p \<in> set (hashTable t ! i) \<or> p = (key, val)"
        by (auto simp: put_def)
      then show ?thesis
      proof
        assume "p \<in> set (hashTable t ! i)"
        from wf_bucket_hash [OF assms il this] show ?thesis by (simp add: hc)
      next
        assume "p = (key, val)"
        with True s show ?thesis by (simp add: hc)
      qed
    next
      case False
      with p il have "p \<in> set (hashTable t ! i)" by (simp add: put_def)
      from wf_bucket_hash [OF assms il this] show ?thesis by (simp add: hc)
    qed
  qed
qed

lemma wf_put:
  assumes "wf H t" "key \<notin> keys_of t"
  shows "wf H (put H t key val)"
proof -
  have m: "mset (entries (put H t key val)) = add_mset (key, val) (mset (entries t))"
    by (rule mset_entries_put [OF assms(1)])
  from m have len: "length (entries (put H t key val)) = length (entries t) + 1"
    by (metis size_mset size_add_mset Suc_eq_plus1)
  from m have "mset (map fst (entries (put H t key val))) = mset (key # map fst (entries t))"
    by (metis (no_types) fst_conv image_mset_add_mset mset.simps(2) mset_map)
  then have "distinct (map fst (entries (put H t key val))) = distinct (key # map fst (entries t))"
    by (rule mset_eq_imp_distinct_iff)
  with assms have "distinct (map fst (entries (put H t key val)))"
    by (simp add: wf_def keys_of_def)
  with assms(1) len buckets_ok_put [OF assms(1)] show ?thesis
    by (simp add: wf_def)
qed

lemma push_back_wf:
  "wf H t \<Longrightarrow>
     push_back (t\<lparr>nElements := nElements t + 1\<rparr>) (hash H t key) (key, val) = Inr (put H t key val)"
  using wf_slot [of H t key] hash_range [of t H key]
  by (simp add: push_back_def bucketAt_def put_def wf_def)

lemma insert_hm_wf:
  assumes "wf H t"
  shows "insert_hm (Suc d) H t key val =
     (if key \<in> keys_of t then Inr (t, False)
      else if 3 * capacity t < 4 * (nElements t + 1)
      then (case resizeTable d H (put H t key val) (wrap_int (capacity t * 2)) of
              Inl e \<Rightarrow> Inl e
            | Inr t3 \<Rightarrow> Inr (t3, True))
      else Inr (put H t key val, True))"
proof -
  have c: "0 < capacity (put H t key val)" using assms by (simp add: wf_def)
  show ?thesis
    by (simp add: insert_hm.simps containsKey_wf [OF assms] push_back_wf [OF assms]
          load_above [OF c] resizeTable_def TABLE_SIZE_FACTOR_def)
qed

lemma set_entries_put:
  "wf H t \<Longrightarrow> set (entries (put H t key val)) = insert (key, val) (set (entries t))"
  by (metis mset_entries_put set_mset_add_mset_insert set_mset_mset)

lemma keys_of_put: "wf H t \<Longrightarrow> keys_of (put H t key val) = insert key (keys_of t)"
  by (simp add: keys_of_def set_entries_put)

subsection \<open>Traversal\<close>

lemma wf_bucketAt_nat:
  "wf H t \<Longrightarrow> n < length (hashTable t) \<Longrightarrow> bucketAt t (int n) = Inr (hashTable t ! n)"
  by (simp add: bucketAt_def)

lemma setEnd_wf: "wf H t \<Longrightarrow> setEnd t it = Inr (end_iter t it)"
  by (simp add: setEnd_def bucketAt_def wf_def end_iter_def Let_def)

lemma concat_skip_empty:
  "concat (drop (length (takeWhile (\<lambda>b. b = []) xs)) xs) = concat xs"
proof -
  have "concat (takeWhile (\<lambda>b. b = []) xs) = []" by (induction xs) auto
  moreover have "xs = takeWhile (\<lambda>b. b = []) xs @ drop (length (takeWhile (\<lambda>b. b = []) xs)) xs"
    by (metis dropWhile_eq_drop takeWhile_dropWhile_id)
  ultimately show ?thesis by (metis concat_append self_append_conv2)
qed

lemma first_nonempty:
  assumes "n + length (takeWhile P (drop n xs)) < length xs"
  shows "\<not> P (xs ! (n + length (takeWhile P (drop n xs))))"
proof -
  from assms have "length (takeWhile P (drop n xs)) < length (drop n xs)" by simp
  then have "\<not> P (drop n xs ! length (takeWhile P (drop n xs)))"
    by (rule nth_length_takeWhile)
  with assms show ?thesis by simp
qed

lemma nextBucket_loop_wf:
  assumes "wf H t"
  shows "n \<le> length (hashTable t) \<Longrightarrow>
     nextBucket_loop t it (int n) =
       (let j = n + length (takeWhile (\<lambda>b. b = []) (drop n (hashTable t)))
        in if j < length (hashTable t)
           then Inr (it\<lparr>bucketPtr := Some (int j), pairPtr := Some (int j, 0), currBucket := int j\<rparr>)
           else setEnd t it)"
proof (induction "length (hashTable t) - n" arbitrary: n)
  case 0
  then have n: "n = length (hashTable t)" by simp
  with assms have "int n = capacity t" by (simp add: wf_def)
  then have "nextBucket_loop t it (int n) = setEnd t it"
    by (simp add: nextBucket_loop.simps [of t it "capacity t"])
  with n show ?case by simp
next
  case (Suc m)
  then have n: "n < length (hashTable t)" by simp
  then have d: "drop n (hashTable t) = hashTable t ! n # drop (Suc n) (hashTable t)"
    by (simp add: Cons_nth_drop_Suc)
  from n assms have c: "int n < capacity t" by (simp add: wf_def)
  show ?case
  proof (cases "hashTable t ! n = []")
    case False
    with n c show ?thesis
      by (simp add: nextBucket_loop.simps [of t it "int n"] wf_bucketAt_nat [OF assms n] d)
  next
    case True
    have "nextBucket_loop t it (int n) = nextBucket_loop t it (int n + 1)"
      using True c by (simp add: nextBucket_loop.simps [of t it "int n"] wf_bucketAt_nat [OF assms n])
    then have "nextBucket_loop t it (int n) = nextBucket_loop t it (int (Suc n))"
      by (simp add: add.commute)
    also have "\<dots> =
       (let j = Suc n + length (takeWhile (\<lambda>b. b = []) (drop (Suc n) (hashTable t)))
        in if j < length (hashTable t)
           then Inr (it\<lparr>bucketPtr := Some (int j), pairPtr := Some (int j, 0), currBucket := int j\<rparr>)
           else setEnd t it)"
      using Suc.hyps(2) n by (intro Suc.hyps(1)) auto
    finally show ?thesis using True by (simp add: d)
  qed
qed

lemma cend_wf:
  assumes "wf H t"
  shows "\<exists>en. cend t = Inr en
            \<and> pairPtr en = Some (capacity t - 1, length (hashTable t ! nat (capacity t - 1)))"
proof -
  have "nextBucket_loop t it (capacity t) = setEnd t it" for it
    by (simp add: nextBucket_loop.simps [of t it "capacity t"])
  then show ?thesis
    by (simp add: cend_def new_const_iterator_def nextBucket_def Let_def
          setEnd_wf [OF assms] end_iter_def)
qed

lemma iterate_from_end:
  assumes "wf H t"
    and "pairPtr it = Some (capacity t - 1, length (hashTable t ! nat (capacity t - 1)))"
  shows "iterate_from t it = Inr []"
proof -
  from cend_wf [OF assms(1)] obtain en where "cend t = Inr en"
    "pairPtr en = Some (capacity t - 1, length (hashTable t ! nat (capacity t - 1)))" by blast
  with assms(2) show ?thesis
    by (simp add: iterate_from.simps [of t it] iter_eq_def)
qed

lemma iterate_from_at:
  "wf H t \<Longrightarrow> iter_at it b pos \<Longrightarrow> b < length (hashTable t) \<Longrightarrow> pos < length (hashTable t ! b) \<Longrightarrow>
     iterate_from t it = Inr (drop pos (hashTable t ! b) @ concat (drop (Suc b) (hashTable t)))"
proof (induction t it arbitrary: b pos rule: iterate_from.induct)
  case (1 t it)
  note w = "1.prems"(1)
  let ?bs = "hashTable t"
  from cend_wf [OF w] obtain en where en: "cend t = Inr en"
    "pairPtr en = Some (capacity t - 1, length (?bs ! nat (capacity t - 1)))" by blast
  from "1.prems"(2) have it: "currBucket it = int b" "bucketPtr it = Some (int b)"
    "pairPtr it = Some (int b, pos)" by (simp_all add: iter_at_def)
  have ne: "\<not> iter_eq it en"
  proof
    assume "iter_eq it en"
    with en(2) it(3) have "int b = capacity t - 1" "pos = length (?bs ! nat (capacity t - 1))"
      by (simp_all add: iter_eq_def)
    moreover from this(1) have "nat (capacity t - 1) = b" by simp
    ultimately show False using "1.prems"(4) by simp
  qed
  have bk: "bucketAt t (int b) = Inr (?bs ! b)"
    by (rule wf_bucketAt_nat [OF w "1.prems"(3)])
  have de: "deref t it = Inr (?bs ! b ! pos)"
    using "1.prems"(4) by (simp add: deref_def it bk)
  let ?it1 = "it\<lparr>pairPtr := Some (int b, pos + 1)\<rparr>"
  have unfold: "iterate_from t it =
      (case nextPair t it of Inl e \<Rightarrow> Inl e
       | Inr it1 \<Rightarrow> (case iterate_from t it1 of Inl e \<Rightarrow> Inl e | Inr ps \<Rightarrow> Inr (?bs ! b ! pos # ps)))"
    using en(1) ne de by (simp add: iterate_from.simps [of t it])
  have dr: "drop pos (?bs ! b) = ?bs ! b ! pos # drop (Suc pos) (?bs ! b)"
    using "1.prems"(4) by (simp add: Cons_nth_drop_Suc)
  show ?case
  proof (cases "pos + 1 = length (?bs ! b)")
    case False
    then have np: "nextPair t it = Inr ?it1"
      using "1.prems"(4) by (simp add: nextPair_def it bk Let_def)
    have "iter_at ?it1 b (pos + 1)" using it by (simp add: iter_at_def)
    moreover have "pos + 1 < length (?bs ! b)" using False "1.prems"(4) by simp
    ultimately have "iterate_from t ?it1 =
        Inr (drop (pos + 1) (?bs ! b) @ concat (drop (Suc b) ?bs))"
      by (intro "1.IH" [OF en(1) ne de np w] "1.prems"(3))
    with unfold np dr show ?thesis by simp
  next
    case True
    let ?it2 = "?it1\<lparr>currBucket := int b + 1\<rparr>"
    let ?j = "Suc b + length (takeWhile (\<lambda>b. b = []) (drop (Suc b) ?bs))"
    have "nextPair t it = nextBucket_loop t ?it2 (int b + 1)"
      using True "1.prems"(4) by (simp add: nextPair_def it bk Let_def nextBucket_def)
    then have np: "nextPair t it = nextBucket_loop t ?it2 (int (Suc b))"
      by (simp add: add.commute)
    have loop: "nextBucket_loop t ?it2 (int (Suc b)) =
        (if ?j < length ?bs
         then Inr (?it2\<lparr>bucketPtr := Some (int ?j), pairPtr := Some (int ?j, 0), currBucket := int ?j\<rparr>)
         else setEnd t ?it2)"
      using nextBucket_loop_wf [OF w, of "Suc b" ?it2] "1.prems"(3) by (simp add: Let_def)
    have skip: "concat (drop ?j ?bs) = concat (drop (Suc b) ?bs)"
      using concat_skip_empty [of "drop (Suc b) ?bs"] by (simp add: add.commute)
    have last: "drop pos (?bs ! b) = [?bs ! b ! pos]"
      using dr True by simp
    show ?thesis
    proof (cases "?j < length ?bs")
      case False
      then have "concat (drop (Suc b) ?bs) = []" using skip by simp
      moreover have "nextPair t it = Inr (end_iter t ?it2)"
        using np loop False by (simp add: setEnd_wf [OF w])
      moreover have "iterate_from t (end_iter t ?it2) = Inr []"
        by (rule iterate_from_end [OF w]) (simp add: end_iter_def)
      ultimately show ?thesis using unfold last by simp
    next
      case j: True
      let ?it3 = "?it2\<lparr>bucketPtr := Some (int ?j), pairPtr := Some (int ?j, 0), currBucket := int ?j\<rparr>"
      have np3: "nextPair t it = Inr ?it3" using np loop j by simp
      have nonempty: "?bs ! ?j \<noteq> []"
        by (rule first_nonempty [OF j])
      have "iter_at ?it3 ?j 0" by (simp add: iter_at_def)
      moreover have "0 < length (?bs ! ?j)" using nonempty by simp
      ultimately have "iterate_from t ?it3 = Inr (drop 0 (?bs ! ?j) @ concat (drop (Suc ?j) ?bs))"
        by (intro "1.IH" [OF en(1) ne de np3 w] j)
      moreover have "drop ?j ?bs = ?bs ! ?j # drop (Suc ?j) ?bs"
        using j by (simp add: Cons_nth_drop_Suc)
      ultimately have "iterate_from t ?it3 = Inr (concat (drop (Suc b) ?bs))"
        using skip by simp
      with unfold np3 last show ?thesis by simp
    qed
  qed
qed

lemma iterate_wf:
  assumes "wf H t"
  shows "iterate t = Inr (entries t)"
proof (cases "nElements t = 0")
  case True
  with assms have "entries t = []" by (simp add: wf_def)
  moreover have "cbegin t = Inr (end_iter t \<lparr>currBucket = 0 - 1, bucketPtr = None, pairPtr = None\<rparr>)"
    using True
    by (simp add: cbegin_def new_const_iterator_def empty_hm_def setEnd_wf [OF assms] Let_def)
  moreover have "iterate_from t (end_iter t \<lparr>currBucket = 0 - 1, bucketPtr = None, pairPtr = None\<rparr>) = Inr []"
    by (rule iterate_from_end [OF assms]) (simp add: end_iter_def)
  ultimately show ?thesis by (simp add: iterate_def)
next
  case False
  let ?bs = "hashTable t"
  let ?it0 = "\<lparr>currBucket = 0, bucketPtr = None, pairPtr = None\<rparr>"
  let ?j = "length (takeWhile (\<lambda>b. b = []) ?bs)"
  have cb: "cbegin t = nextBucket_loop t ?it0 (int 0)"
    using False by (simp add: cbegin_def new_const_iterator_def empty_hm_def nextBucket_def Let_def)
  have loop: "nextBucket_loop t ?it0 (int 0) =
        (if ?j < length ?bs
         then Inr (?it0\<lparr>bucketPtr := Some (int ?j), pairPtr := Some (int ?j, 0), currBucket := int ?j\<rparr>)
         else setEnd t ?it0)"
    using nextBucket_loop_wf [OF assms, of 0 ?it0] by (simp add: Let_def)
  have skip: "concat (drop ?j ?bs) = concat ?bs" by (rule concat_skip_empty)
  show ?thesis
  proof (cases "?j < length ?bs")
    case False
    then have "concat ?bs = []" using skip by simp
    moreover have "cbegin t = Inr (end_iter t ?it0)"
      using cb loop False by (simp add: setEnd_wf [OF assms])
    moreover have "iterate_from t (end_iter t ?it0) = Inr []"
      by (rule iterate_from_end [OF assms]) (simp add: end_iter_def)
    ultimately show ?thesis by (simp add: iterate_def entries_def)
  next
    case j: True
    let ?it3 = "?it0\<lparr>bucketPtr := Some (int ?j), pairPtr := Some (int ?j, 0), currBucket := int ?j\<rparr>"
    have cb3: "cbegin t = Inr ?it3" using cb loop j by simp
    have nonempty: "?bs ! ?j \<noteq> []"
      using first_nonempty [of 0 "\<lambda>b. b = []" ?bs] j by simp
    have "iter_at ?it3 ?j 0" by (simp add: iter_at_def)
    moreover have "0 < length (?bs ! ?j)" using nonempty by simp
    ultimately have "iterate_from t ?it3 = Inr (drop 0 (?bs ! ?j) @ concat (drop (Suc ?j) ?bs))"
      by (intro iterate_from_at [OF assms] j)
    moreover have "drop ?j ?bs = ?bs ! ?j # drop (Suc ?j) ?bs"
      using j by (simp add: Cons_nth_drop_Suc)
    ultimately have "iterate_from t ?it3 = Inr (concat ?bs)"
      using skip by simp
    with cb3 show ?thesis by (simp add: iterate_def entries_def)
  qed
qed

subsection \<open>Powers of two\<close>

lemma is_pow2_iff: "is_pow2 c \<longleftrightarrow> (\<exists>j::nat. c = 2 ^ j)"
proof
  assume "\<exists>j::nat. c = 2 ^ j"
  then obtain j :: nat where j: "c = 2 ^ j" ..
  have "j < 2 ^ j" by (rule less_exp)
  also have "(2::nat) ^ j = nat c" using j by (simp add: nat_power_eq)
  finally show "is_pow2 c" using j by (auto simp: is_pow2_def)
qed (auto simp: is_pow2_def)

lemma is_pow2_pos: "is_pow2 c \<Longrightarrow> 1 \<le> c"
  by (auto simp: is_pow2_iff)

lemma is_pow2_double: "is_pow2 c \<Longrightarrow> is_pow2 (c * 2)"
proof -
  assume "is_pow2 c"
  then obtain j :: nat where "c = 2 ^ j" by (auto simp: is_pow2_iff)
  then have "c * 2 = 2 ^ Suc j" by simp
  then show ?thesis unfolding is_pow2_iff by blast
qed

lemma is_pow2_half:
  assumes "is_pow2 c" "2 \<le> c"
  shows "is_pow2 (c div 2)" "c = 2 * (c div 2)"
proof -
  from assms(1) obtain j :: nat where j: "c = 2 ^ j" by (auto simp: is_pow2_iff)
  with assms(2) have "j \<noteq> 0" by (cases j) auto
  then obtain i where "j = Suc i" by (cases j) auto
  with j have c: "c = 2 * 2 ^ i" by simp
  then have "c div 2 = 2 ^ i" by simp
  then show "is_pow2 (c div 2)" unfolding is_pow2_iff by blast
  from c show "c = 2 * (c div 2)" by simp
qed

lemma sdiv_two: "0 \<le> c \<Longrightarrow> c sdiv TABLE_SIZE_FACTOR = c div (2::int)"
  by (simp add: signed_divide_int_def TABLE_SIZE_FACTOR_def sgn_if)

subsection \<open>The range of int\<close>

lemma wrap_int_id: "- 2147483648 \<le> x \<Longrightarrow> x \<le> INT_MAX \<Longrightarrow> wrap_int x = x"
  by (simp add: wrap_int_def INT_MAX_def)

lemma wrap_int_doubled:
  assumes "is_pow2 c" "INT_MAX < c * 2"
  shows "wrap_int (c * 2) < 1"
proof -
  from assms(1) obtain j :: nat where j: "c = 2 ^ j" by (auto simp: is_pow2_iff)
  have "30 \<le> j"
  proof (rule ccontr)
    assume "\<not> 30 \<le> j"
    then have "Suc j \<le> 30" by simp
    then have "(2::int) ^ Suc j \<le> 2 ^ 30" by (rule power_increasing) simp
    with assms(2) j show False by (simp add: INT_MAX_def)
  qed
  then consider "j = 30" | "31 \<le> j" by linarith
  then show ?thesis
  proof cases
    case 1
    with j show ?thesis by (simp add: wrap_int_def)
  next
    case 2
    then obtain k where "j = 31 + k" using le_Suc_ex by blast
    with j have "c * 2 = 4294967296 * 2 ^ k" by (simp add: power_add)
    then show ?thesis by (simp add: wrap_int_def)
  qed
qed

subsection \<open>Fresh tables\<close>

lemma HashMap_cap_fields [simp]:
  "capacity (HashMap_cap c) = c" "nElements (HashMap_cap c) = 0"
  "entries (HashMap_cap c) = []" "keys_of (HashMap_cap c) = {}"
  by (simp_all add: HashMap_cap_def entries_def keys_of_def)

lemma wf_HashMap_cap: "1 \<le> c \<Longrightarrow> wf H (HashMap_cap c)"
  unfolding wf_def by (simp add: buckets_ok_def) (simp add: HashMap_cap_def)

subsection \<open>Rebuilding a table\<close>

lemma rehash_wf:
  "wf H r \<Longrightarrow> distinct (map fst ps) \<Longrightarrow> fst ` set ps \<inter> keys_of r = {} \<Longrightarrow>
   4 * (nElements r + int (length ps)) \<le> 3 * capacity r \<Longrightarrow>
     \<exists>r'. rehash (insert_hm (Suc d) H) r ps = Inr r' \<and> wf H r' \<and> capacity r' = capacity r
         \<and> nElements r' = nElements r + int (length ps)
         \<and> mset (entries r') = mset (entries r) + mset ps"
proof (induction ps arbitrary: r)
  case Nil
  then show ?case by simp
next
  case (Cons p ps)
  obtain k v where p: "p = (k, v)" by (cases p)
  from Cons.prems(3) p have absent: "k \<notin> keys_of r" by auto
  from Cons.prems(4) have small: "\<not> 3 * capacity r < 4 * (nElements r + 1)" by simp
  let ?r1 = "put H r k v"
  have ins: "insert_hm (Suc d) H r k v = Inr (?r1, True)"
    using absent small by (simp add: insert_hm_wf [OF Cons.prems(1)])
  have w1: "wf H ?r1" by (rule wf_put [OF Cons.prems(1) absent])
  have d1: "distinct (map fst ps)" using Cons.prems(2) by simp
  have k1: "fst ` set ps \<inter> keys_of ?r1 = {}"
    using Cons.prems(2,3) p by (auto simp: keys_of_put [OF Cons.prems(1)])
  have l1: "4 * (nElements ?r1 + int (length ps)) \<le> 3 * capacity ?r1"
    using Cons.prems(4) by simp
  from Cons.IH [OF w1 d1 k1 l1] obtain r' where r':
    "rehash (insert_hm (Suc d) H) ?r1 ps = Inr r'" "wf H r'" "capacity r' = capacity ?r1"
    "nElements r' = nElements ?r1 + int (length ps)"
    "mset (entries r') = mset (entries ?r1) + mset ps" by blast
  have "rehash (insert_hm (Suc d) H) r (p # ps) = Inr r'"
    using ins r'(1) p by simp
  moreover have "mset (entries r') = mset (entries r) + mset (p # ps)"
    using r'(5) p by (simp add: mset_entries_put [OF Cons.prems(1)])
  ultimately show ?case using r'(2,3,4) by simp
qed

lemma resizeTable_refused: "newSize < 1 \<Longrightarrow> resizeTable d H t newSize = Inr t"
  by (simp add: resizeTable_def resizeTable_with_def MIN_CAPACITY_def)

lemma resizeTable_wf:
  assumes "wf H t" "1 \<le> newSize" "4 * nElements t \<le> 3 * newSize"
  shows "\<exists>r. resizeTable (Suc d) H t newSize = Inr r \<and> wf H r \<and> capacity r = newSize
           \<and> nElements r = nElements t \<and> mset (entries r) = mset (entries t)"
proof -
  from assms(1) have n: "nElements t = int (length (entries t))"
    and dist: "distinct (map fst (entries t))" by (simp_all add: wf_def)
  from n assms(3) have guard: "size_hm t \<le> newSize \<and> newSize \<ge> MIN_CAPACITY"
    using assms(2) by (simp add: size_hm_def MIN_CAPACITY_def)
  have "4 * (nElements (HashMap_cap newSize :: ('a, 'b) HashMap) + int (length (entries t)))
          \<le> 3 * capacity (HashMap_cap newSize :: ('a, 'b) HashMap)"
    using assms(3) n by simp
  moreover have "fst ` set (entries t) \<inter> keys_of (HashMap_cap newSize :: ('a, 'b) HashMap) = {}"
    by simp
  ultimately obtain r' where "rehash (insert_hm (Suc d) H) (HashMap_cap newSize) (entries t) = Inr r'"
    "wf H r'" "capacity r' = newSize" "nElements r' = int (length (entries t))"
    "mset (entries r') = mset (entries t)"
    using rehash_wf [where d = d, OF wf_HashMap_cap [OF assms(2), of H] dist] by auto
  with guard n show ?thesis
    by (simp add: resizeTable_def resizeTable_with_def iterate_wf [OF assms(1)])
qed

subsection \<open>Insertion\<close>

lemma invar_wf: "invar H t \<Longrightarrow> wf H t"
  by (simp add: invar_def)

lemma invar_grown_wf: "invar_grown H t \<Longrightarrow> wf H t"
  by (simp add: invar_grown_def)

lemma invar_invar_grown: "invar H t \<Longrightarrow> invar_grown H t"
  by (simp add: invar_def invar_grown_def)

lemma insert_hm_present:
  "wf H t \<Longrightarrow> key \<in> keys_of t \<Longrightarrow> insert_hm (Suc d) H t key val = Inr (t, False)"
  by (simp add: insert_hm_wf)

text \<open>An insert below the bound \<open>3/4\<close> only adds the pair.\<close>

lemma insert_hm_plain:
  assumes "wf H t" "key \<notin> keys_of t" "\<not> 3 * capacity t < 4 * (nElements t + 1)"
  shows "insert_hm (Suc d) H t key val = Inr (put H t key val, True)"
  using assms(2,3) by (simp add: insert_hm_wf [OF assms(1)])

text \<open>An insert that crosses the bound doubles the capacity when the product fits.\<close>

lemma insert_hm_doubling:
  assumes "invar H t" "key \<notin> keys_of t" "3 * capacity t < 4 * (nElements t + 1)"
    "capacity t * 2 \<le> INT_MAX"
  shows "\<exists>t'. insert_hm (Suc (Suc d)) H t key val = Inr (t', True) \<and> invar H t'
           \<and> nElements t' = nElements t + 1
           \<and> mset (entries t') = add_mset (key, val) (mset (entries t))
           \<and> capacity t' = capacity t * 2"
proof -
  from assms(1) have w: "wf H t" and p2: "is_pow2 (capacity t)"
    and load: "4 * nElements t \<le> 3 * capacity t" by (simp_all add: invar_def)
  let ?t2 = "put H t key val"
  have w2: "wf H ?t2" by (rule wf_put [OF w assms(2)])
  have m2: "mset (entries ?t2) = add_mset (key, val) (mset (entries t))"
    by (rule mset_entries_put [OF w])
  have wr: "wrap_int (capacity t * 2) = capacity t * 2"
    using is_pow2_pos [OF p2] assms(4) by (intro wrap_int_id) simp_all
  have big: "4 * (nElements t + 1) \<le> 3 * (capacity t * 2)"
    using is_pow2_pos [OF p2] load by presburger
  then have "4 * nElements ?t2 \<le> 3 * (capacity t * 2)" by simp
  moreover have "1 \<le> capacity t * 2" using is_pow2_pos [OF p2] by simp
  ultimately obtain r where r: "resizeTable (Suc d) H ?t2 (capacity t * 2) = Inr r" "wf H r"
    "capacity r = capacity t * 2" "nElements r = nElements ?t2"
    "mset (entries r) = mset (entries ?t2)"
    using resizeTable_wf [OF w2, of "capacity t * 2" d] by blast
  have "insert_hm (Suc (Suc d)) H t key val = Inr (r, True)"
    using assms(2,3) r(1) wr by (simp add: insert_hm_wf [OF w])
  moreover have "invar H r"
    using r(2,3,4) is_pow2_double [OF p2] big by (simp add: invar_def)
  ultimately show ?thesis using r(3,4,5) m2 by simp
qed

text \<open>
  An insert that crosses the bound when the product does not fit: the wrapped size is
  refused and the pair is only added.
\<close>

lemma insert_hm_refused:
  assumes "wf H t" "is_pow2 (capacity t)" "key \<notin> keys_of t"
    "3 * capacity t < 4 * (nElements t + 1)" "INT_MAX < capacity t * 2"
  shows "insert_hm (Suc (Suc d)) H t key val = Inr (put H t key val, True)"
  using assms(3,4) wrap_int_doubled [OF assms(2,5)]
  by (simp add: insert_hm_wf [OF assms(1)] resizeTable_refused)

text \<open>
  With fewer than \<open>2^29\<close> stored pairs the product fits whenever the bound is crossed.
\<close>

lemma doubling_fits:
  "3 * c < 4 * (n + 1) \<Longrightarrow> n < 536870912 \<Longrightarrow> c * 2 \<le> INT_MAX" for c n :: int
  by (simp add: INT_MAX_def)

lemma insert_hm_absent:
  assumes "invar H t" "key \<notin> keys_of t" "nElements t < 536870912"
  shows "\<exists>t'. insert_hm (Suc (Suc d)) H t key val = Inr (t', True) \<and> invar H t'
           \<and> nElements t' = nElements t + 1
           \<and> mset (entries t') = add_mset (key, val) (mset (entries t))
           \<and> capacity t' = (if 3 * capacity t < 4 * (nElements t + 1)
                             then capacity t * 2 else capacity t)"
proof (cases "3 * capacity t < 4 * (nElements t + 1)")
  case False
  from assms(1) have w: "wf H t" and p2: "is_pow2 (capacity t)" by (simp_all add: invar_def)
  have "insert_hm (Suc (Suc d)) H t key val = Inr (put H t key val, True)"
    by (rule insert_hm_plain [OF w assms(2) False])
  moreover have "invar H (put H t key val)"
    using wf_put [OF w assms(2)] p2 False by (simp add: invar_def)
  ultimately show ?thesis using mset_entries_put [OF w, of key val] False by simp
next
  case True
  from insert_hm_doubling [OF assms(1,2) True doubling_fits [OF True assms(3)], of d val] True
  show ?thesis by auto
qed

lemma insert_hm_absent_grown:
  assumes "invar_grown H t" "key \<notin> keys_of t"
  shows "\<exists>t'. insert_hm (Suc (Suc d)) H t key val = Inr (t', True) \<and> invar_grown H t'
           \<and> nElements t' = nElements t + 1
           \<and> mset (entries t') = add_mset (key, val) (mset (entries t))"
proof -
  from assms(1) have w: "wf H t" and p2: "is_pow2 (capacity t)"
    and load: "4 * nElements t \<le> 3 * capacity t \<or> INT_MAX < capacity t * 2"
    by (simp_all add: invar_grown_def)
  let ?t2 = "put H t key val"
  have w2: "wf H ?t2" by (rule wf_put [OF w assms(2)])
  have m2: "mset (entries ?t2) = add_mset (key, val) (mset (entries t))"
    by (rule mset_entries_put [OF w])
  consider (plain) "\<not> 3 * capacity t < 4 * (nElements t + 1)"
    | (refused) "3 * capacity t < 4 * (nElements t + 1)" "INT_MAX < capacity t * 2"
    | (doubling) "3 * capacity t < 4 * (nElements t + 1)" "capacity t * 2 \<le> INT_MAX"
    by linarith
  then show ?thesis
  proof cases
    case plain
    have "insert_hm (Suc (Suc d)) H t key val = Inr (?t2, True)"
      by (rule insert_hm_plain [OF w assms(2) plain])
    moreover have "invar_grown H ?t2" using w2 p2 plain by (simp add: invar_grown_def)
    ultimately show ?thesis using m2 by simp
  next
    case refused
    have "insert_hm (Suc (Suc d)) H t key val = Inr (?t2, True)"
      by (rule insert_hm_refused [OF w p2 assms(2) refused])
    moreover have "invar_grown H ?t2" using w2 p2 refused(2) by (simp add: invar_grown_def)
    ultimately show ?thesis using m2 by simp
  next
    case doubling
    with load have "invar H t" using w p2 by (simp add: invar_def)
    from insert_hm_doubling [OF this assms(2) doubling, of d val] obtain t' where
      "insert_hm (Suc (Suc d)) H t key val = Inr (t', True)" "invar H t'"
      "nElements t' = nElements t + 1"
      "mset (entries t') = add_mset (key, val) (mset (entries t))" by blast
    then show ?thesis using invar_invar_grown by blast
  qed
qed

subsection \<open>Removal\<close>

lemma del_fields [simp]:
  "capacity (del H t key j) = capacity t"
  "nElements (del H t key j) = nElements t - 1"
  "length (hashTable (del H t key j)) = length (hashTable t)"
  by (simp_all add: del_def)

lemma mset_entries_del:
  assumes "wf H t" "j < length (hashTable t ! nat (hash H t key))"
  shows "mset (entries t) =
           add_mset (hashTable t ! nat (hash H t key) ! j) (mset (entries (del H t key j)))"
proof -
  let ?s = "nat (hash H t key)"
  let ?b = "hashTable t ! ?s"
  have "?b = take j ?b @ ?b ! j # drop (Suc j) ?b"
    by (rule id_take_nth_drop [OF assms(2)])
  then have "mset ?b = add_mset (?b ! j) (mset (take j ?b @ drop (Suc j) ?b))"
    by (metis mset.simps(2) mset_append union_mset_add_mset_right)
  with mset_concat_update [OF wf_slot [OF assms(1)], of key "take j ?b @ drop (j + 1) ?b"]
  show ?thesis by (simp add: del_def entries_def)
qed

lemma buckets_ok_del:
  assumes "wf H t"
  shows "buckets_ok H (del H t key j)"
proof -
  let ?s = "nat (hash H t key)"
  have hc: "hash H (del H t key j) k = hash H t k" for k by (simp add: hash_def)
  show ?thesis
    unfolding buckets_ok_def
  proof (intro ballI)
    fix i p
    assume i: "i \<in> {..<length (hashTable (del H t key j))}"
      and p: "p \<in> set (hashTable (del H t key j) ! i)"
    from i have il: "i < length (hashTable t)" by simp
    have "p \<in> set (hashTable t ! i)"
    proof (cases "i = ?s")
      case True
      with p il have "p \<in> set (take j (hashTable t ! i)) \<or> p \<in> set (drop (j + 1) (hashTable t ! i))"
        by (auto simp: del_def)
      then show ?thesis by (auto dest: in_set_takeD in_set_dropD)
    next
      case False
      with p il show ?thesis by (simp add: del_def)
    qed
    from wf_bucket_hash [OF assms il this] show "hash H (del H t key j) (fst p) = int i"
      by (simp add: hc)
  qed
qed

lemma wf_del:
  assumes "wf H t" "j < length (hashTable t ! nat (hash H t key))"
  shows "wf H (del H t key j)"
proof -
  let ?p = "hashTable t ! nat (hash H t key) ! j"
  have m: "mset (entries t) = add_mset ?p (mset (entries (del H t key j)))"
    by (rule mset_entries_del [OF assms])
  then have "length (entries t) = length (entries (del H t key j)) + 1"
    by (metis size_mset size_add_mset Suc_eq_plus1)
  then have len: "nElements (del H t key j) = int (length (entries (del H t key j)))"
    using assms(1) by (simp add: wf_def)
  from m have "mset (map fst (entries t)) = mset (fst ?p # map fst (entries (del H t key j)))"
    by (metis (no_types) image_mset_add_mset mset.simps(2) mset_map)
  then have "distinct (map fst (entries t)) = distinct (fst ?p # map fst (entries (del H t key j)))"
    by (rule mset_eq_imp_distinct_iff)
  with assms(1) have "distinct (map fst (entries (del H t key j)))"
    by (simp add: wf_def)
  with assms(1) len buckets_ok_del [OF assms(1)] show ?thesis
    by (simp add: wf_def)
qed

lemma erase_absent:
  "wf H t \<Longrightarrow> key \<notin> keys_of t \<Longrightarrow> erase d H t key = Inr (t, False)"
  by (simp add: erase_def wf_bucketAt getPairByKey_absent)

lemma erase_present:
  assumes "invar H t" "(key, v) \<in> set (entries t)"
  shows "\<exists>t'. erase (Suc d) H t key = Inr (t', True) \<and> invar H t'
           \<and> nElements t' = nElements t - 1
           \<and> mset (entries t) = add_mset (key, v) (mset (entries t'))
           \<and> capacity t' = (if 4 * (nElements t - 1) < capacity t
                             then capacity t div 2 else capacity t)"
proof -
  from assms(1) have w: "wf H t" and p2: "is_pow2 (capacity t)"
    and load: "4 * nElements t \<le> 3 * capacity t" by (simp_all add: invar_def)
  let ?s = "nat (hash H t key)"
  let ?b = "hashTable t ! ?s"
  from getPairByKey_present [OF w assms(2)] obtain j where
    j: "j < length ?b" "?b ! j = (key, v)"
       "getPairByKey H t key = Inr \<lparr>elem = (key, v), idxInBucket = int j\<rparr>" by blast
  let ?t2 = "del H t key j"
  have w2: "wf H ?t2" by (rule wf_del [OF w j(1)])
  have m2: "mset (entries t) = add_mset (key, v) (mset (entries ?t2))"
    using mset_entries_del [OF w j(1)] j(2) by simp
  have n1: "1 \<le> nElements t"
  proof -
    from assms(2) have "entries t \<noteq> []" by auto
    then show ?thesis using w by (cases "entries t") (simp_all add: wf_def)
  qed
  have c0: "0 < capacity ?t2" using is_pow2_pos [OF p2] by simp
  have ea: "erase_at t (hash H t key) (int j) =
      Inr (t\<lparr>hashTable := (hashTable t)[?s := take j ?b @ drop (j + 1) ?b]\<rparr>)"
    using j(1) by (simp add: erase_at_def wf_bucketAt [OF w])
  have unfold: "erase (Suc d) H t key =
      (if 4 * (nElements t - 1) < capacity t
       then (case resizeTable (Suc d) H ?t2 (capacity t sdiv TABLE_SIZE_FACTOR) of
               Inl e \<Rightarrow> Inl e | Inr t3 \<Rightarrow> Inr (t3, True))
       else Inr (?t2, True))"
    using load_below [OF c0]
    by (simp add: erase_def Let_def wf_bucketAt [OF w] j(3) ea del_def)
  show ?thesis
  proof (cases "4 * (nElements t - 1) < capacity t")
    case False
    then have "erase (Suc d) H t key = Inr (?t2, True)" using unfold by simp
    moreover have "invar H ?t2" using w2 p2 load by (simp add: invar_def)
    ultimately show ?thesis using m2 False by simp
  next
    case True
    from n1 load have c2: "2 \<le> capacity t" by simp
    note half = is_pow2_half [OF p2 c2]
    have sd: "capacity t sdiv TABLE_SIZE_FACTOR = capacity t div 2"
      using c2 by (simp add: sdiv_two)
    have "1 \<le> capacity t div 2" using c2 by simp
    moreover have big: "4 * (nElements t - 1) \<le> 3 * (capacity t div 2)"
      using True half(2) c2 by presburger
    then have "4 * nElements ?t2 \<le> 3 * (capacity t div 2)" by simp
    ultimately obtain r where r: "resizeTable (Suc d) H ?t2 (capacity t div 2) = Inr r" "wf H r"
      "capacity r = capacity t div 2" "nElements r = nElements ?t2"
      "mset (entries r) = mset (entries ?t2)"
      using resizeTable_wf [OF w2, of "capacity t div 2" d] by blast
    have "erase (Suc d) H t key = Inr (r, True)"
      using unfold True r(1) sd by simp
    moreover have "invar H r"
      using r(2,3,4) half(1) big by (simp add: invar_def)
    ultimately show ?thesis using r(3,4,5) m2 True by simp
  qed
qed

subsection \<open>Clearing\<close>



subsection \<open>The first pair of the traversal\<close>

lemma cbegin_wf:
  assumes "wf H t" "entries t \<noteq> []"
  shows "\<exists>it j. cbegin t = Inr it \<and> iter_at it j 0 \<and> j < length (hashTable t)
           \<and> hashTable t ! j \<noteq> [] \<and> concat (drop j (hashTable t)) = entries t"
proof -
  let ?bs = "hashTable t"
  let ?it0 = "\<lparr>currBucket = 0, bucketPtr = None, pairPtr = None\<rparr>"
  let ?j = "length (takeWhile (\<lambda>b. b = []) ?bs)"
  let ?it3 = "?it0\<lparr>bucketPtr := Some (int ?j), pairPtr := Some (int ?j, 0), currBucket := int ?j\<rparr>"
  from assms have ne: "nElements t \<noteq> 0" by (simp add: wf_def)
  have cb: "cbegin t = nextBucket_loop t ?it0 (int 0)"
    using ne by (simp add: cbegin_def new_const_iterator_def empty_hm_def nextBucket_def Let_def)
  have loop: "nextBucket_loop t ?it0 (int 0) =
        (if ?j < length ?bs then Inr ?it3 else setEnd t ?it0)"
    using nextBucket_loop_wf [OF assms(1), of 0 ?it0] by (simp add: Let_def)
  have skip: "concat (drop ?j ?bs) = concat ?bs" by (rule concat_skip_empty)
  have j: "?j < length ?bs"
  proof (rule ccontr)
    assume "\<not> ?j < length ?bs"
    then have "concat ?bs = []" using skip by simp
    with assms(2) show False by (simp add: entries_def)
  qed
  have "?bs ! ?j \<noteq> []"
    using first_nonempty [of 0 "\<lambda>b. b = []" ?bs] j by simp
  moreover have "cbegin t = Inr ?it3" using cb loop j by simp
  moreover have "iter_at ?it3 ?j 0" by (simp add: iter_at_def)
  ultimately show ?thesis using j skip unfolding entries_def by blast
qed

lemma deref_cbegin:
  assumes "wf H t" "entries t \<noteq> []"
  shows "\<exists>it. cbegin t = Inr it \<and> deref t it = Inr (hd (entries t))"
proof -
  from cbegin_wf [OF assms] obtain it j where it: "cbegin t = Inr it" "iter_at it j 0"
    "j < length (hashTable t)" "hashTable t ! j \<noteq> []"
    "concat (drop j (hashTable t)) = entries t" by blast
  from it(3) have "drop j (hashTable t) = hashTable t ! j # drop (Suc j) (hashTable t)"
    by (simp add: Cons_nth_drop_Suc)
  with it(5) have "entries t = hashTable t ! j @ concat (drop (Suc j) (hashTable t))"
    by simp
  with it(4) have "hd (entries t) = hashTable t ! j ! 0"
    by (simp add: hd_append hd_conv_nth)
  moreover have "deref t it = Inr (hashTable t ! j ! 0)"
    using it(2,3,4) by (simp add: deref_def iter_at_def wf_bucketAt_nat [OF assms(1)])
  ultimately show ?thesis using it(1) by simp
qed

subsection \<open>Membership after a change\<close>


lemma erased_key_gone:
  assumes "wf H t" "mset (entries t) = add_mset (key, v) (mset (entries t'))"
  shows "key \<notin> keys_of t'"
proof -
  from assms(2) have "mset (map fst (entries t)) = mset (key # map fst (entries t'))"
    by (metis (no_types) fst_conv image_mset_add_mset mset.simps(2) mset_map)
  then have "distinct (map fst (entries t)) = distinct (key # map fst (entries t'))"
    by (rule mset_eq_imp_distinct_iff)
  with assms(1) show ?thesis by (simp add: wf_def keys_of_def)
qed

lemma erased_others_stay:
  assumes "mset (entries t) = add_mset (key, v) (mset (entries t'))" "p \<in> set (entries t)"
    "fst p \<noteq> key"
  shows "p \<in> set (entries t')"
proof -
  from assms(1) have "set (entries t) = insert (key, v) (set (entries t'))"
    by (metis set_mset_add_mset_insert set_mset_mset)
  with assms(2,3) show ?thesis by auto
qed


subsection \<open>Assignment through a reference\<close>


lemma set_val_fields [simp]:
  "capacity (set_val H t key j val) = capacity t"
  "nElements (set_val H t key j val) = nElements t"
  "length (hashTable (set_val H t key j val)) = length (hashTable t)"
  by (simp_all add: set_val_def)





subsection \<open>The mutable indexed access\<close>





subsection \<open>Filling a table from two vectors\<close>





subsection \<open>Constructed tables\<close>




subsection \<open>Sequences of calls\<close>



lemma depth_two: "2 \<le> d \<Longrightarrow> \<exists>d'. d = Suc (Suc d')"
  by (metis Suc_le_D numeral_2_eq_2 Suc_le_mono)

lemma depth_one: "1 \<le> d \<Longrightarrow> \<exists>d'. d = Suc d'"
  by (cases d) auto


section \<open>Move construction\<close>

text \<open>
  C2 (as the code has it). Move construction hands the bucket array over: the new object
  holds the source's bucket pointer, size and capacity, and so stands for the very table
  the source stood for. In the source object only the pointer is reset, to null: its size
  and capacity keep their values, so it reports \<open>empty\<close> exactly when it was empty before.
  Destroying the source afterwards frees nothing and leaves the heap, and with it the
  array of the new object, as it was.
\<close>

theorem HashMap_move_transfer:
  "hashTable (fst (HashMap_move t)) = hashTable t
   \<and> size_hm (fst (HashMap_move t)) = size_hm t
   \<and> capacity (fst (HashMap_move t)) = capacity t
   \<and> table_of h (fst (HashMap_move t)) = table_of h t
   \<and> hashTable (snd (HashMap_move t)) = None
   \<and> size_hm (snd (HashMap_move t)) = size_hm t
   \<and> capacity (snd (HashMap_move t)) = capacity t
   \<and> empty_hm (snd (HashMap_move t)) = empty_hm t
   \<and> destroy h (snd (HashMap_move t)) = Inr h"
  by (simp add: HashMap_move_def Let_def size_hm_def empty_hm_def table_of_def destroy_def
        split: option.splits)

text \<open>
  C2 as stated fails: a source holding one pair (its array at address 0) still has
  size 1 after the move and is not empty.
\<close>

theorem HashMap_move_source_not_emptied:
  "size_hm (snd (HashMap_move \<lparr>nElements = 1, capacity = 16, hashTable = Some 0\<rparr>)) = 1
   \<and> \<not> empty_hm (snd (HashMap_move \<lparr>nElements = 1, capacity = 16, hashTable = Some 0\<rparr>))"
  by (simp add: HashMap_move_def Let_def size_hm_def empty_hm_def)

section \<open>The capacity and the load factor after a mutating call\<close>




section \<open>The const indexed access on an absent key\<close>

text \<open>
  C3. On a table (\<open>invar\<close>) that is not empty, the const \<^verbatim>\<open>operator[]\<close> applied to a key the
  table does not contain does not fail with \<open>KeyNotFound\<close>: it returns the value of the
  first pair the traversal from \<^verbatim>\<open>cbegin()\<close> visits.
\<close>

theorem index_const_absent_key:
  assumes "invar H t" "\<not> empty_hm t" "containsKey H t key = Inr False"
  shows "\<exists>p ps. iterate t = Inr (p # ps) \<and> index_const H t key = Inr (snd p)
           \<and> index_const H t key \<noteq> Inl KeyNotFound"
proof -
  note w = invar_wf [OF assms(1)]
  from assms(2) w have ne: "entries t \<noteq> []" by (auto simp: empty_hm_def wf_def)
  from assms(3) have absent: "key \<notin> keys_of t" by (simp add: containsKey_wf [OF w])
  from deref_cbegin [OF w ne] obtain it where
    "cbegin t = Inr it" "deref t it = Inr (hd (entries t))" by blast
  then have "index_const H t key = Inr (snd (hd (entries t)))"
    by (simp add: index_const_def getPairByKey_absent [OF w absent])
  moreover have "iterate t = Inr (hd (entries t) # tl (entries t))"
    using ne by (simp add: iterate_wf [OF w])
  ultimately show ?thesis by auto
qed

text \<open>The theorem at the table holding the pair \<open>(5, 7)\<close>, for the absent key 3.\<close>

theorem index_const_absent_key_witness:
  "invar ex_hash ex_one \<and> \<not> empty_hm ex_one \<and> containsKey ex_hash ex_one 3 = Inr False
   \<and> (\<exists>p ps. iterate ex_one = Inr (p # ps) \<and> index_const ex_hash ex_one 3 = Inr (snd p)
          \<and> index_const ex_hash ex_one 3 \<noteq> Inl KeyNotFound)"
proof -
  have h1: "invar ex_hash ex_one" by code_simp
  have h2: "\<not> empty_hm ex_one" by code_simp
  have h3: "containsKey ex_hash ex_one 3 = Inr False" by code_simp
  from index_const_absent_key [OF h1 h2 h3] h1 h2 h3 show ?thesis by blast
qed

section \<open>Inserting a key that is present\<close>

text \<open>
  C4. If \<^verbatim>\<open>at(key)\<close> is \<open>v\<close> in a table (\<open>invar\<close>), then \<^verbatim>\<open>insert(key, v')\<close> returns false and leaves the
  table as it was: \<^verbatim>\<open>at(key)\<close> is still \<open>v\<close>, and size and capacity are unchanged.
\<close>

theorem insert_present_key:
  assumes "invar H t" "at_hm H t key = Inr v" "1 \<le> d"
  shows "\<exists>t'. insert_hm d H t key v' = Inr (t', False) \<and> t' = t \<and> at_hm H t' key = Inr v
           \<and> size_hm t' = size_hm t \<and> capacity t' = capacity t"
proof -
  note w = invar_wf [OF assms(1)]
  from depth_one [OF assms(3)] obtain d' where d: "d = Suc d'" ..
  from assms(2) have "(key, v) \<in> set (entries t)" by (simp add: at_hm_iff [OF w])
  then have "key \<in> keys_of t" by (force simp: keys_of_def)
  then have "insert_hm d H t key v' = Inr (t, False)"
    unfolding d by (rule insert_hm_present [OF w])
  with assms(2) show ?thesis by simp
qed

text \<open>The theorem at the table holding \<open>(5, 7)\<close>, for \<^verbatim>\<open>insert(5, 9)\<close>.\<close>

theorem insert_present_key_witness:
  "invar ex_hash ex_one \<and> at_hm ex_hash ex_one 5 = Inr 7 \<and> (1::nat) \<le> 1
   \<and> (\<exists>t'. insert_hm 1 ex_hash ex_one 5 9 = Inr (t', False) \<and> t' = ex_one
          \<and> at_hm ex_hash t' 5 = Inr 7
          \<and> size_hm t' = size_hm ex_one \<and> capacity t' = capacity ex_one)"
proof -
  have h1: "invar ex_hash ex_one" by code_simp
  have h2: "at_hm ex_hash ex_one 5 = Inr 7" by code_simp
  have h3: "(1::nat) \<le> 1" by simp
  from insert_present_key [OF h1 h2 h3, of 9] h1 h2 show ?thesis by simp
qed

section \<open>Lookups that raise\<close>

text \<open>
  C5. On a table (\<open>invar\<close>), each of \<^verbatim>\<open>at\<close>, \<^verbatim>\<open>bucketSize\<close> and \<^verbatim>\<open>bucketIndex\<close> fails
  with \<open>KeyNotFound\<close> exactly when the key is absent, that is, when no stored pair has
  it as its key. When the key is present each returns normally: \<^verbatim>\<open>at\<close> the value
  stored with the key, \<^verbatim>\<open>bucketIndex\<close> the index of the key's bucket, \<^verbatim>\<open>bucketSize\<close>
  the length of that bucket.
\<close>

theorem key_not_found_iff_absent:
  assumes "invar H t"
  shows "(at_hm H t key = Inl KeyNotFound \<longleftrightarrow> key \<notin> keys_of t)
       \<and> (bucketSize H t key = Inl KeyNotFound \<longleftrightarrow> key \<notin> keys_of t)
       \<and> (bucketIndex H t key = Inl KeyNotFound \<longleftrightarrow> key \<notin> keys_of t)
       \<and> (key \<in> keys_of t \<longleftrightarrow>
             (\<exists>v. at_hm H t key = Inr v)
           \<and> bucketIndex H t key = Inr (hash H t key)
           \<and> bucketSize H t key = Inr (int (length (hashTable t ! nat (hash H t key)))))
       \<and> (\<forall>v. at_hm H t key = Inr v \<longleftrightarrow> (key, v) \<in> set (entries t))"
proof -
  note w = invar_wf [OF assms]
  have a: "\<forall>v. at_hm H t key = Inr v \<longleftrightarrow> (key, v) \<in> set (entries t)"
    by (simp add: at_hm_iff [OF w])
  have c: "containsKey H t key = Inr (key \<in> keys_of t)" by (rule containsKey_wf [OF w])
  show ?thesis
  proof (cases "key \<in> keys_of t")
    case False
    from at_hm_absent [OF w False] have "at_hm H t key = Inl KeyNotFound" .
    with False a c show ?thesis
      by (simp add: bucketIndex_def bucketSize_def)
  next
    case True
    then obtain v where v: "(key, v) \<in> set (entries t)" by (blast dest: keys_of_cases)
    then have "at_hm H t key = Inr v" by (rule at_hm_present [OF w])
    with True a c v show ?thesis
      by (auto simp: bucketIndex_def bucketSize_def wf_bucketAt [OF w])
  qed
qed

text \<open>The theorem at the table holding \<open>(5, 7)\<close>, for the absent key 3 and the present key 5.\<close>

theorem key_not_found_iff_absent_witness:
  "invar ex_hash ex_one
   \<and> 3 \<notin> keys_of ex_one
   \<and> at_hm ex_hash ex_one 3 = Inl KeyNotFound \<and> bucketSize ex_hash ex_one 3 = Inl KeyNotFound
   \<and> bucketIndex ex_hash ex_one 3 = Inl KeyNotFound
   \<and> 5 \<in> keys_of ex_one
   \<and> at_hm ex_hash ex_one 5 = Inr 7 \<and> bucketSize ex_hash ex_one 5 = Inr 1
   \<and> bucketIndex ex_hash ex_one 5 = Inr 5"
proof -
  have h1: "invar ex_hash ex_one" by code_simp
  have a: "3 \<notin> keys_of ex_one" by (simp add: ex_one_def keys_of_def entries_def)
  have b: "5 \<in> keys_of ex_one" by (simp add: ex_one_def keys_of_def entries_def)
  have c: "(5, 7) \<in> set (entries ex_one)" by (simp add: ex_one_def entries_def)
  have e: "hash ex_hash ex_one 5 = 5" by code_simp
  from key_not_found_iff_absent [OF h1, of 3] key_not_found_iff_absent [OF h1, of 5] h1 a b c e
  show ?thesis by (simp add: ex_one_def)
qed

section \<open>Erasing\<close>

text \<open>
  C6. If a table (\<open>invar\<close>) contains the key, \<^verbatim>\<open>erase(key)\<close> returns true and afterwards
  \<^verbatim>\<open>containsKey(key)\<close> is false; if it does not, \<^verbatim>\<open>erase(key)\<close> returns false and
  leaves the size (and the whole table) unchanged.
\<close>

theorem erase_present_and_absent:
  assumes "invar H t" "1 \<le> d"
  shows "(containsKey H t key = Inr True \<longrightarrow>
            (\<exists>t'. erase d H t key = Inr (t', True) \<and> containsKey H t' key = Inr False))
       \<and> (containsKey H t key = Inr False \<longrightarrow>
            (\<exists>t'. erase d H t key = Inr (t', False) \<and> size_hm t' = size_hm t \<and> t' = t))"
proof -
  note w = invar_wf [OF assms(1)]
  from depth_one [OF assms(2)] obtain d' where d: "d = Suc d'" ..
  show ?thesis
  proof (cases "key \<in> keys_of t")
    case False
    then show ?thesis by (simp add: containsKey_wf [OF w] erase_absent [OF w])
  next
    case True
    then obtain v where "(key, v) \<in> set (entries t)" by (blast dest: keys_of_cases)
    from erase_present [OF assms(1) this, of d'] obtain t' where
      t': "erase d H t key = Inr (t', True)" "invar H t'"
          "mset (entries t) = add_mset (key, v) (mset (entries t'))" unfolding d by blast
    from erased_key_gone [OF w t'(3)] have "containsKey H t' key = Inr False"
      by (simp add: containsKey_wf [OF invar_wf [OF t'(2)]])
    with True t'(1) show ?thesis by (simp add: containsKey_wf [OF w])
  qed
qed

text \<open>The theorem at the table holding \<open>(5, 7)\<close>, for the present key 5 and the absent key 3.\<close>

theorem erase_present_and_absent_witness:
  "invar ex_hash ex_one \<and> (1::nat) \<le> 1
   \<and> containsKey ex_hash ex_one 5 = Inr True
   \<and> (\<exists>t'. erase 1 ex_hash ex_one 5 = Inr (t', True) \<and> containsKey ex_hash t' 5 = Inr False)
   \<and> containsKey ex_hash ex_one 3 = Inr False
   \<and> (\<exists>t'. erase 1 ex_hash ex_one 3 = Inr (t', False) \<and> size_hm t' = size_hm ex_one
          \<and> t' = ex_one)"
proof -
  have h1: "invar ex_hash ex_one" by code_simp
  have h2: "(1::nat) \<le> 1" by simp
  have a: "containsKey ex_hash ex_one 5 = Inr True" by code_simp
  have b: "containsKey ex_hash ex_one 3 = Inr False" by code_simp
  from erase_present_and_absent [OF h1 h2, of 5] erase_present_and_absent [OF h1 h2, of 3]
    h1 a b
  show ?thesis by simp
qed

section \<open>Construction from two vectors\<close>




section \<open>Growth at capacity 16\<close>

text \<open>
  C8. Take a table (\<open>invar\<close>) of capacity 16 and insert distinct keys it does not contain. As long
  as the size stays at most 12 the capacity stays 16; the insert that makes the size 13
  crosses the bound \<open>3/4\<close> and doubles the capacity to 32; no further insert changes the
  capacity while the size stays at most 24. So exactly one doubling happens, and
  \<^verbatim>\<open>capacity()\<close> is 16 before the crossing insert and 32 after it.
\<close>

theorem one_doubling_at_capacity_16:
  assumes "invar H t" "capacity t = 16" "2 \<le> d"
    and "distinct (map fst kvs)"
    and "\<forall>k \<in> fst ` set kvs. containsKey H t k = Inr False"
    and "size_hm t + int (length kvs) \<le> 24"
  shows "\<exists>t'. run_ops d H t (map (\<lambda>(k, v). Insert k v) kvs) = Inr t'
           \<and> size_hm t' = size_hm t + int (length kvs)
           \<and> capacity t' = (if size_hm t + int (length kvs) \<le> 12 then 16 else 32)"
proof -
  from depth_two [OF assms(3)] obtain d' where d: "d = Suc (Suc d')" ..
  have step: "\<exists>t'. run_ops d H s (map (\<lambda>(k, v). Insert k v) ps) = Inr t' \<and> invar H t'
           \<and> nElements t' = nElements s + int (length ps)
           \<and> capacity t' = (if nElements s + int (length ps) \<le> 12 then 16 else 32)"
    if "invar H s" "capacity s = (if nElements s \<le> 12 then 16 else 32)"
      "distinct (map fst ps)" "fst ` set ps \<inter> keys_of s = {}"
      "nElements s + int (length ps) \<le> 24" for s :: "('a, 'b) HashMap" and ps
    using that
  proof (induction ps arbitrary: s)
    case Nil
    then show ?case by simp
  next
    case (Cons p ps)
    obtain k v where p: "p = (k, v)" by (cases p)
    from Cons.prems(4) p have absent: "k \<notin> keys_of s" by auto
    from Cons.prems(5) have "nElements s < 536870912" by simp
    from insert_hm_absent [OF Cons.prems(1) absent this, of d' v] obtain s1 where
      s1: "insert_hm d H s k v = Inr (s1, True)" "invar H s1"
          "nElements s1 = nElements s + 1"
          "mset (entries s1) = add_mset (k, v) (mset (entries s))"
          "capacity s1 = (if 3 * capacity s < 4 * (nElements s + 1)
                          then capacity s * 2 else capacity s)"
      unfolding d by blast
    from s1(4) have "set (entries s1) = insert (k, v) (set (entries s))"
      by (metis set_mset_add_mset_insert set_mset_mset)
    then have keys1: "keys_of s1 = insert k (keys_of s)" by (simp add: keys_of_def)
    have c1: "capacity s1 = (if nElements s1 \<le> 12 then 16 else 32)"
      using s1(3,5) Cons.prems(2,5) by (auto split: if_splits)
    have d1: "distinct (map fst ps)" using Cons.prems(3) by simp
    have k1: "fst ` set ps \<inter> keys_of s1 = {}"
      using Cons.prems(3,4) p keys1 by auto
    have l1: "nElements s1 + int (length ps) \<le> 24" using Cons.prems(5) s1(3) by simp
    from Cons.IH [OF s1(2) c1 d1 k1 l1] obtain t' where
      t': "run_ops d H s1 (map (\<lambda>(k, v). Insert k v) ps) = Inr t'" "invar H t'"
          "nElements t' = nElements s1 + int (length ps)"
          "capacity t' = (if nElements s1 + int (length ps) \<le> 12 then 16 else 32)" by blast
    have "run_ops d H s (map (\<lambda>(k, v). Insert k v) (p # ps)) = Inr t'"
      using p s1(1) t'(1) by simp
    moreover have "nElements s1 + int (length ps) = nElements s + int (length (p # ps))"
      using s1(3) by simp
    ultimately show ?case using t'(2,3,4) by auto
  qed
  note w = invar_wf [OF assms(1)]
  from assms(1,2) have "nElements t \<le> 12" by (simp add: invar_def)
  with assms(2) have c: "capacity t = (if nElements t \<le> 12 then 16 else 32)" by simp
  from assms(5) have a: "fst ` set kvs \<inter> keys_of t = {}"
    by (auto simp: containsKey_wf [OF w] keys_of_def)
  from assms(6) have l: "nElements t + int (length kvs) \<le> 24" by (simp add: size_hm_def)
  from step [OF assms(1) c assms(4) a l] show ?thesis by (auto simp: size_hm_def)
qed

text \<open>
  The theorem at the table of capacity 16 holding twelve pairs, for one more insert of a
  new key: the crossing insert.
\<close>

theorem one_doubling_at_capacity_16_witness:
  "invar ex_hash ex_twelve \<and> capacity ex_twelve = 16 \<and> (2::nat) \<le> 2
   \<and> distinct (map fst [(12::nat, 0::int)])
   \<and> containsKey ex_hash ex_twelve 12 = Inr False
   \<and> size_hm ex_twelve + int (length [(12::nat, 0::int)]) \<le> 24
   \<and> (\<exists>t'. run_ops 2 ex_hash ex_twelve [Insert 12 0] = Inr t'
          \<and> size_hm t' = 13 \<and> capacity t' = 32)"
proof -
  have h1: "invar ex_hash ex_twelve" by code_simp
  have h2: "capacity ex_twelve = 16" by code_simp
  have h3: "(2::nat) \<le> 2" by simp
  have h4: "distinct (map fst [(12::nat, 0::int)])" by simp
  have c: "containsKey ex_hash ex_twelve 12 = Inr False" by code_simp
  then have h5: "\<forall>k \<in> fst ` set [(12::nat, 0::int)]. containsKey ex_hash ex_twelve k = Inr False"
    by simp
  have s: "size_hm ex_twelve = 12" by code_simp
  then have h6: "size_hm ex_twelve + int (length [(12::nat, 0::int)]) \<le> 24" by simp
  from one_doubling_at_capacity_16 [OF h1 h2 h3 h4 h5 h6] h1 h2 h4 c h6 s
  show ?thesis by simp
qed

section \<open>Iteration\<close>

text \<open>
  C9. On a table (\<open>invar\<close>), iterating from \<^verbatim>\<open>begin()\<close> to \<^verbatim>\<open>end()\<close> (the same iterators as
  \<^verbatim>\<open>cbegin()\<close> and \<^verbatim>\<open>cend()\<close>) terminates and yields exactly \<^verbatim>\<open>size()\<close> pairs, no
  pair twice and no key twice; a pair is yielded exactly when the table holds it, that is,
  when \<^verbatim>\<open>at\<close> of its key returns its value.
\<close>

theorem iteration_yields_the_stored_pairs:
  assumes "invar H t"
  shows "\<exists>ps. iterate t = Inr ps \<and> int (length ps) = size_hm t
           \<and> distinct ps \<and> distinct (map fst ps)
           \<and> (\<forall>k v. (k, v) \<in> set ps \<longleftrightarrow> at_hm H t k = Inr v)
           \<and> begin_hm t = cbegin t \<and> end_hm t = cend t"
proof -
  note w = invar_wf [OF assms]
  from w have "int (length (entries t)) = size_hm t" and dk: "distinct (map fst (entries t))"
    by (simp_all add: wf_def size_hm_def)
  moreover from dk have "distinct (entries t)" by (simp add: distinct_map)
  ultimately show ?thesis
    by (simp add: iterate_wf [OF w] at_hm_iff [OF w] begin_hm_def end_hm_def cbegin_def cend_def)
qed

text \<open>The theorem at the table holding twelve pairs.\<close>

theorem iteration_yields_the_stored_pairs_witness:
  "invar ex_hash ex_twelve
   \<and> (\<exists>ps. iterate ex_twelve = Inr ps \<and> int (length ps) = size_hm ex_twelve
          \<and> distinct ps \<and> distinct (map fst ps)
          \<and> (\<forall>k v. (k, v) \<in> set ps \<longleftrightarrow> at_hm ex_hash ex_twelve k = Inr v)
          \<and> begin_hm ex_twelve = cbegin ex_twelve \<and> end_hm ex_twelve = cend ex_twelve)"
proof -
  have h1: "invar ex_hash ex_twelve" by code_simp
  from iteration_yields_the_stored_pairs [OF h1] h1 show ?thesis by blast
qed

section \<open>Other keys are left alone\<close>

text \<open>
  C10. If \<^verbatim>\<open>at(k2)\<close> is \<open>v2\<close> in a table (\<open>invar\<close>) and \<open>k1\<close> is another key, then after \<^verbatim>\<open>insert(k1, v1)\<close> and
  after \<^verbatim>\<open>erase(k1)\<close> the table still contains \<open>k2\<close> and \<^verbatim>\<open>at(k2)\<close> is still \<open>v2\<close>,
  whether or not the call resized the table.
\<close>

theorem other_keys_unchanged:
  assumes "invar H t" "at_hm H t k2 = Inr v2" "k1 \<noteq> k2" "2 \<le> d"
  shows "(\<exists>t' b. insert_hm d H t k1 v1 = Inr (t', b)
            \<and> containsKey H t' k2 = Inr True \<and> at_hm H t' k2 = Inr v2)
       \<and> (\<exists>t' b. erase d H t k1 = Inr (t', b)
            \<and> containsKey H t' k2 = Inr True \<and> at_hm H t' k2 = Inr v2)"
proof -
  note w = invar_wf [OF assms(1)]
  from depth_two [OF assms(4)] obtain d' where d: "d = Suc (Suc d')" ..
  from assms(2) have m: "(k2, v2) \<in> set (entries t)" by (simp add: at_hm_iff [OF w])
  then have c: "containsKey H t k2 = Inr True" by (force simp: containsKey_wf [OF w] keys_of_def)
  have stays: "containsKey H t' k2 = Inr True \<and> at_hm H t' k2 = Inr v2"
    if "wf H t'" "(k2, v2) \<in> set (entries t')" for t'
    using that by (force simp: containsKey_wf at_hm_iff keys_of_def)
  show ?thesis
  proof (cases "k1 \<in> keys_of t")
    case False
    from insert_hm_absent_grown [OF invar_invar_grown [OF assms(1)] False, of d' v1]
    obtain t' where
      t': "insert_hm d H t k1 v1 = Inr (t', True)" "wf H t'"
          "mset (entries t') = add_mset (k1, v1) (mset (entries t))"
      unfolding d using invar_grown_wf by blast
    from t'(3) have "set (entries t') = insert (k1, v1) (set (entries t))"
      by (metis set_mset_add_mset_insert set_mset_mset)
    with m have "(k2, v2) \<in> set (entries t')" by simp
    from stays [OF t'(2) this] t'(1)
    have "\<exists>t' b. insert_hm d H t k1 v1 = Inr (t', b)
            \<and> containsKey H t' k2 = Inr True \<and> at_hm H t' k2 = Inr v2" by blast
    moreover have "erase d H t k1 = Inr (t, False)" by (rule erase_absent [OF w False])
    ultimately show ?thesis using c assms(2) by blast
  next
    case True
    then have "insert_hm d H t k1 v1 = Inr (t, False)"
      unfolding d by (rule insert_hm_present [OF w])
    with c assms(2) have ins: "\<exists>t' b. insert_hm d H t k1 v1 = Inr (t', b)
            \<and> containsKey H t' k2 = Inr True \<and> at_hm H t' k2 = Inr v2" by blast
    from True obtain v where "(k1, v) \<in> set (entries t)" by (blast dest: keys_of_cases)
    from erase_present [OF assms(1) this, of "Suc d'"] obtain t' where
      t': "erase d H t k1 = Inr (t', True)" "invar H t'"
          "mset (entries t) = add_mset (k1, v) (mset (entries t'))" unfolding d by blast
    from erased_others_stay [OF t'(3) m] assms(3) have "(k2, v2) \<in> set (entries t')" by simp
    from stays [OF invar_wf [OF t'(2)] this] t'(1) ins show ?thesis by blast
  qed
qed

text \<open>
  The theorem at the table holding twelve pairs, for \<open>k2 = 3\<close>: inserting the new key 12
  doubles the capacity, erasing the present key 5 does not resize.
\<close>

theorem other_keys_unchanged_witness:
  "invar ex_hash ex_twelve \<and> at_hm ex_hash ex_twelve 3 = Inr 0 \<and> (12::nat) \<noteq> 3
   \<and> (5::nat) \<noteq> 3 \<and> (2::nat) \<le> 2
   \<and> (\<exists>t' b. insert_hm 2 ex_hash ex_twelve 12 1 = Inr (t', b)
          \<and> containsKey ex_hash t' 3 = Inr True \<and> at_hm ex_hash t' 3 = Inr 0)
   \<and> (\<exists>t' b. erase 2 ex_hash ex_twelve 5 = Inr (t', b)
          \<and> containsKey ex_hash t' 3 = Inr True \<and> at_hm ex_hash t' 3 = Inr 0)"
proof -
  have h1: "invar ex_hash ex_twelve" by code_simp
  have h2: "at_hm ex_hash ex_twelve 3 = Inr 0" by code_simp
  have h3: "(12::nat) \<noteq> 3" "(5::nat) \<noteq> 3" by simp_all
  have h4: "(2::nat) \<le> 2" by simp
  from other_keys_unchanged [OF h1 h2 h3(1) h4, of 1]
    other_keys_unchanged [OF h1 h2 h3(2) h4, of 1] h1 h2
  show ?thesis by simp
qed

end
